theory Spec2Isabelle
  imports Complex_Main
begin

section \<open>Matrices and errors\<close>

text \<open>
  The element depths of an OpenCV matrix, in the library's numbering
  (\<open>CV_8U = 0\<close>, ..., \<open>CV_64F = 6\<close>).
\<close>

datatype cv_depth = CV_8U | CV_8S | CV_16U | CV_16S | CV_32S | CV_32F | CV_64F

text \<open>
  A \<open>cv::Mat\<close>: \<open>cols\<close> counts the matrix columns (for a feature map, cells times
  the feature length), \<open>data\<close> is the buffer behind \<open>ptr(0)\<close>, row after row.
  The working type \<open>T\<close> (\<open>float\<close> or \<open>double\<close>) is idealised as \<open>real\<close>.
\<close>

record mat =
  rows :: nat
  cols :: nat
  channels :: nat
  depth :: cv_depth
  data :: "real list"

text \<open>
  How a call ends when it does not return: \<open>CV_Error(CV_StsUnsupportedFormat, ...)\<close>,
  a failed \<open>assert\<close>, the remainder by a zero stride inside the assertion, a read
  or a store through a pointer that has left its buffer, a request for a matrix with a
  negative number of rows or columns, a failure of the Image Resampler, and the
  conversion to \<open>int\<close> of a floating-point value that is not finite.
\<close>

datatype error = UnsupportedFormat | PreconditionViolation | DivisionByZero | OutOfBounds
  | NegativeExtent | ResamplerFailure | BadConversion

section \<open>The strided convolution \<open>HOGFeatures<T>::convolve\<close>\<close>

text \<open>
  The matrix \<open>pdf.create(Size(M, N), feature.type())\<close> makes: \<open>cv::Size\<close> is
  (width, height), so the matrix has \<open>N\<close> rows and \<open>M\<close> columns. \<open>create\<close> leaves the
  cells uninitialised; \<open>written\<close> holds the values stored through \<open>pdf_ptr++\<close>, in
  order from the first cell, and the cells after them keep whatever they held.
\<close>

record response =
  pdf_rows :: int
  pdf_cols :: int
  written :: "real list"

text \<open>
  The inner \<open>while (filt_ptr < filt_start + h*W)\<close>, on the state
  \<open>(accum, filt_ptr, feat_ptr)\<close>; pointers are offsets into the two buffers, and
  \<open>feature.ptr<T>(m)\<close> is the offset \<open>m * feature.cols\<close>. The reads stay inside
  the buffers (lemmas \<open>conv_column_fits\<close> and \<open>conv_reads_in_range\<close>).
\<close>

function conv_while :: "real list \<Rightarrow> real list \<Rightarrow> nat \<Rightarrow> real \<times> nat \<times> nat \<Rightarrow> real \<times> nat \<times> nat" where
  "conv_while fdata gdata bound (accum, filt_ptr, feat_ptr) =
     (if filt_ptr < bound
      then conv_while fdata gdata bound
             (accum + fdata ! filt_ptr * gdata ! feat_ptr, Suc filt_ptr, Suc feat_ptr)
      else (accum, filt_ptr, feat_ptr))"
  by pat_completeness auto
termination
  by (relation "measure (\<lambda>(fdata, gdata, bound, accum, filt_ptr, feat_ptr). bound - filt_ptr)") auto

declare conv_while.simps [simp del]

text \<open>One round of \<open>for (int h = 0; h < H; ++h)\<close>: the while loop, then
  \<open>feat_ptr = feature.ptr<T>(m+h) + n\<close>.\<close>

definition conv_h_step :: "mat \<Rightarrow> mat \<Rightarrow> nat \<Rightarrow> nat \<Rightarrow> nat \<Rightarrow> real \<times> nat \<times> nat \<Rightarrow> real \<times> nat \<times> nat" where
  "conv_h_step feature filt m n h st =
     (case conv_while (data filt) (data feature) (h * cols filt) st of
        (accum, filt_ptr, feat_ptr) \<Rightarrow> (accum, filt_ptr, (m + h) * cols feature + n))"

text \<open>The body of the \<open>n\<close> loop: the value stored by \<open>*(pdf_ptr++) = accum\<close>.\<close>

definition conv_accum :: "mat \<Rightarrow> mat \<Rightarrow> nat \<Rightarrow> nat \<Rightarrow> real" where
  "conv_accum feature filt m n =
     fst (fold (conv_h_step feature filt m n) [0..<rows filt] (0, 0, m * cols feature + n))"

text \<open>
  \<open>for (int n = 0; n < N; n += stride)\<close>, from \<open>n\<close> on, as the list of the values
  stored. The loop is entered only after the assertion, which a zero stride does not
  pass.
\<close>

function conv_n_loop :: "mat \<Rightarrow> mat \<Rightarrow> nat \<Rightarrow> int \<Rightarrow> nat \<Rightarrow> nat \<Rightarrow> real list" where
  "conv_n_loop feature filt stride N m n =
     (if int n < N \<and> 0 < stride
      then conv_accum feature filt m n # conv_n_loop feature filt stride N m (n + stride)
      else [])"
  by pat_completeness auto
termination
  by (relation "measure (\<lambda>(feature, filt, stride, N, m, n). nat (N - int n))") auto

declare conv_n_loop.simps [simp del]

text \<open>
  The whole call. The two assertions come first; in the second one a zero stride divides
  by zero. \<open>M\<close> or \<open>N\<close> is negative when the filter has more rows than the feature map
  has rows and one, or more columns than the feature map has columns and the stride:
  \<open>pdf.create\<close>, which is OpenCV's, makes no matrix with a negative extent, and the
  call ends there, before any cell is read. Otherwise the values stored are those of the
  loop over \<open>m\<close> around the loop over \<open>n\<close>.
\<close>

definition convolve :: "mat \<Rightarrow> mat \<Rightarrow> nat \<Rightarrow> error + response" where
  "convolve feature filt stride =
     (if depth feature \<noteq> depth filt then Inl PreconditionViolation
      else if stride = 0 then Inl DivisionByZero
      else if \<not> (cols feature mod stride = 0 \<and> cols filt mod stride = 0)
        then Inl PreconditionViolation
      else
        let M = int (rows feature) - int (rows filt) + 1;
            N = int (cols feature) - int (cols filt) + int stride
        in if M < 0 \<or> N < 0 then Inl NegativeExtent
           else Inr \<lparr> pdf_rows = N, pdf_cols = M,
                  written = concat (map (\<lambda>m. conv_n_loop feature filt stride N m 0) [0..<nat M]) \<rparr>)"

text \<open>
  The response the specification describes at row \<open>m\<close> and buffer column \<open>n\<close>: every
  filter row \<open>h\<close> against feature row \<open>m + h\<close> from column \<open>n\<close> on, all products summed.
\<close>

definition window_product :: "mat \<Rightarrow> mat \<Rightarrow> nat \<Rightarrow> nat \<Rightarrow> real" where
  "window_product feature filt m n =
     (\<Sum>h\<leftarrow>[0..<rows filt]. \<Sum>w\<leftarrow>[0..<cols filt].
        data filt ! (h * cols filt + w) * data feature ! ((m + h) * cols feature + n + w))"


text \<open>The filter row \<open>h\<close> against feature row \<open>m + h\<close>, from buffer column \<open>n\<close> on.\<close>

definition row_product :: "mat \<Rightarrow> mat \<Rightarrow> nat \<Rightarrow> nat \<Rightarrow> nat \<Rightarrow> real" where
  "row_product feature filt m n h =
     (\<Sum>w\<leftarrow>[0..<cols filt].
        data filt ! (h * cols filt + w) * data feature ! ((m + h) * cols feature + n + w))"

text \<open>
  Example matrices for the convolution, with the feature length 32: a feature map of all
  ones, and a filter whose first row is all ones and whose second row is all twos.
\<close>

definition ones_map :: "nat \<Rightarrow> nat \<Rightarrow> cv_depth \<Rightarrow> mat" where
  "ones_map r c d = \<lparr> rows = r, cols = c, channels = 1, depth = d, data = replicate (r * c) 1 \<rparr>"

definition two_row_filter :: mat where
  "two_row_filter =
     \<lparr> rows = 2, cols = 32, channels = 1, depth = CV_32F, data = replicate 32 1 @ replicate 32 2 \<rparr>"


section \<open>The extractor \<open>HOGFeatures<T>::features\<close>\<close>

text \<open>
  The members of a \<open>HOGFeatures<T>\<close> object that this file reads: \<open>binsize_\<close>,
  \<open>nscales_\<close>, \<open>flen_\<close>, \<open>norient_\<close> and \<open>scales_\<close>, written without the final
  underscore, which a name cannot end with here. They are declared in
  \<open>HOGFeatures.hpp\<close>; the specification fixes \<open>norient_\<close> at 18 and \<open>flen_\<close> at 32.
  \<open>type_T\<close> is \<open>DataType<T>::type\<close>, the depth of the matrices the object builds.
\<close>

record hog =
  binsize :: nat
  nscales :: nat
  flen :: nat
  norient :: nat
  scales :: "real list"
  type_T :: cv_depth

text \<open>C's \<open>round\<close>: to the nearest integer, halves away from zero.\<close>

definition c_round :: "real \<Rightarrow> int" where
  "c_round r = (if 0 \<le> r then \<lfloor>r + 1/2\<rfloor> else \<lceil>r - 1/2\<rceil>)"

text \<open>\<open>blocks.height = round((float)blocks.height / (float)binsize_)\<close>, likewise the width.\<close>

definition blocks_of :: "hog \<Rightarrow> nat \<Rightarrow> nat" where
  "blocks_of cfg extent = nat (c_round (real extent / real (binsize cfg)))"

text \<open>\<open>max(blocks - 2, 0)\<close>.\<close>

definition outsize_of :: "nat \<Rightarrow> nat" where
  "outsize_of blocks = nat (max (int blocks - 2) 0)"

text \<open>\<open>const double eps = 0.0001\<close>, and the unit vectors \<open>uu\<close> and \<open>vv\<close>.\<close>

definition eps :: real where
  "eps = 0.0001"

definition uu :: "real list" where
  "uu = [1.000, 0.9397, 0.7660, 0.5000, 0.1736, -0.1736, -0.5000, -0.7660, -0.9397]"

definition vv :: "real list" where
  "vv = [0.000, 0.3420, 0.6428, 0.8660, 0.9848, 0.9848, 0.8660, 0.6428, 0.3420]"

subsection \<open>Gradient of one pixel\<close>

text \<open>
  \<open>src + min(x, im.cols-2) + min(y, im.rows-2)*imsize.width\<close>, as an offset from
  \<open>src = im.ptr<IT>(0)\<close>.
\<close>

definition sample_offset :: "mat \<Rightarrow> nat \<Rightarrow> nat \<Rightarrow> int" where
  "sample_offset im x y =
     min (int x) (int (cols im) - 2) + min (int y) (int (rows im) - 2) * int (cols im)"

text \<open>The four samples read around \<open>s\<close>: \<open>s+imsize.width\<close>, \<open>s-imsize.width\<close>, \<open>s+1\<close>, \<open>s-1\<close>.\<close>

definition grad_offsets :: "mat \<Rightarrow> int \<Rightarrow> int list" where
  "grad_offsets im s = [s + int (cols im), s - int (cols im), s + 1, s - 1]"

text \<open>An offset from \<open>src\<close> that lies inside the image buffer.\<close>

definition in_buffer :: "mat \<Rightarrow> int \<Rightarrow> bool" where
  "in_buffer im i = (0 \<le> i \<and> i < int (length (data im)))"

text \<open>
  \<open>dy\<close>, \<open>dx\<close> and \<open>v = dx*dx + dy*dy\<close> of one channel, as \<open>(dx, dy, v)\<close>. A read
  outside the buffer has no defined value: the model stops there with \<open>OutOfBounds\<close>.
\<close>

definition channel_grad :: "mat \<Rightarrow> int \<Rightarrow> error + real \<times> real \<times> real" where
  "channel_grad im s =
     (if list_all (in_buffer im) (grad_offsets im s)
      then
        let dy = data im ! nat (s + int (cols im)) - data im ! nat (s - int (cols im));
            dx = data im ! nat (s + 1) - data im ! nat (s - 1)
        in Inr (dx, dy, dx * dx + dy * dy)
      else Inl OutOfBounds)"

text \<open>\<open>if (vg > v) { v = vg; dx = dxg; dy = dyg; }\<close>, on triples \<open>(dx, dy, v)\<close>.\<close>

definition stronger :: "real \<times> real \<times> real \<Rightarrow> real \<times> real \<times> real \<Rightarrow> real \<times> real \<times> real" where
  "stronger cur other = (if snd (snd other) > snd (snd cur) then other else cur)"

text \<open>
  Lines 164 to 186: the gradient of the first channel and, for a colour image, of the
  channel with the strongest gradient; the second and third channel are read
  \<open>imsize.width*imsize.height\<close> samples further on each.
\<close>

definition pixel_grad :: "mat \<Rightarrow> nat \<Rightarrow> nat \<Rightarrow> error + real \<times> real \<times> real" where
  "pixel_grad im x y =
     (let s = sample_offset im x y; plane = int (cols im) * int (rows im)
      in case channel_grad im s of
           Inl e \<Rightarrow> Inl e
         | Inr b \<Rightarrow>
             if channels im = 3
             then (case channel_grad im (s + plane) of
                     Inl e \<Rightarrow> Inl e
                   | Inr g \<Rightarrow>
                       (case channel_grad im (s + plane + plane) of
                          Inl e \<Rightarrow> Inl e
                        | Inr r \<Rightarrow> Inr (stronger (stronger b g) r)))
             else Inr b)"

subsection \<open>Orientation\<close>

text \<open>One round of \<open>for (int o = 0; o < norient_/2; ++o)\<close> on \<open>(best_dot, best_o)\<close>.\<close>

definition snap_step :: "real \<Rightarrow> real \<Rightarrow> nat \<Rightarrow> real \<times> nat \<Rightarrow> real \<times> nat" where
  "snap_step dx dy ob st =
     (let dot = uu ! ob * dx + vv ! ob * dy
      in if dot > fst st then (dot, ob)
         else if - dot > fst st then (- dot, ob + 9)
         else st)"

text \<open>The loop, from \<open>best_dot = 0\<close> and \<open>best_o = 0\<close>; its result is \<open>best_o\<close>.\<close>

definition snap :: "nat \<Rightarrow> real \<Rightarrow> real \<Rightarrow> nat" where
  "snap nor dx dy = snd (fold (snap_step dx dy) [0..<nor div 2] (0, 0))"

subsection \<open>The histogram pass\<close>

text \<open>
  \<open>*(hist + i) = v\<close>. The stores of the pass all land inside the histogram when
  \<open>norient_\<close> is 18 (lemma \<open>hist_stores_in_range\<close>), so what \<open>store\<close> does with any
  other index is never used.
\<close>

definition store :: "real list \<Rightarrow> int \<Rightarrow> real \<Rightarrow> real list" where
  "store a i v = (if 0 \<le> i then a[nat i := v] else a)"

text \<open>
  Lines 188 to 211 for the pixel \<open>(x, y)\<close> with gradient \<open>(dx, dy, v)\<close>: the four
  statements \<open>if (guard) *(hist + i) = w;\<close> in their order, each as \<open>(guard, i, w)\<close>.
\<close>

definition hist_stores :: "hog \<Rightarrow> nat \<Rightarrow> nat \<Rightarrow> nat \<Rightarrow> nat \<Rightarrow> real \<times> real \<times> real \<Rightarrow> (bool \<times> int \<times> real) list" where
  "hist_stores cfg bw bh x y g =
     (case g of (dx, dy, v) \<Rightarrow>
       let best_o = int (snap (norient cfg) dx dy);
           no = int (norient cfg);
           yp = (real y + 0.5) / real (binsize cfg) - 0.5;
           xp = (real x + 0.5) / real (binsize cfg) - 0.5;
           iyp = \<lfloor>yp\<rfloor>;
           ixp = \<lfloor>xp\<rfloor>;
           vy0 = yp - real_of_int iyp;
           vx0 = xp - real_of_int ixp;
           vy1 = 1.0 - vy0;
           vx1 = 1.0 - vx0;
           v = sqrt v
       in [(iyp \<ge> 0 \<and> ixp \<ge> 0,
              (iyp * int bw + ixp) * no + best_o, vy1 * vx1 * v),
           (iyp \<ge> 0 \<and> ixp + 1 < int bw,
              (iyp * int bw + ixp + 1) * no + best_o, vx1 * vy0 * v),
           (iyp + 1 < int bh \<and> ixp \<ge> 0,
              ((iyp + 1) * int bw + ixp) * no + best_o, vy1 * vx0 * v),
           (iyp + 1 < int bh \<and> ixp + 1 < int bw,
              ((iyp + 1) * int bw + ixp + 1) * no + best_o, vy0 * vx0 * v)])"

text \<open>One such statement, and the four of them on the histogram.\<close>

definition guarded_store :: "bool \<times> int \<times> real \<Rightarrow> real list \<Rightarrow> real list" where
  "guarded_store s hist = (case s of (guard, i, w) \<Rightarrow> if guard then store hist i w else hist)"

definition hist_pixel :: "hog \<Rightarrow> nat \<Rightarrow> nat \<Rightarrow> nat \<Rightarrow> nat \<Rightarrow> real \<times> real \<times> real \<Rightarrow> real list \<Rightarrow> real list" where
  "hist_pixel cfg bw bh x y g hist = fold guarded_store (hist_stores cfg bw bh x y g) hist"

text \<open>\<open>for (int x = 1; x < visible.width-1; ++x)\<close> over the columns still to visit.\<close>

fun hist_x_loop :: "hog \<Rightarrow> mat \<Rightarrow> nat \<Rightarrow> nat \<Rightarrow> nat \<Rightarrow> nat list \<Rightarrow> real list \<Rightarrow> error + real list" where
  "hist_x_loop cfg im bw bh y [] hist = Inr hist"
| "hist_x_loop cfg im bw bh y (x # xs) hist =
     (case pixel_grad im x y of
        Inl e \<Rightarrow> Inl e
      | Inr g \<Rightarrow> hist_x_loop cfg im bw bh y xs (hist_pixel cfg bw bh x y g hist))"

text \<open>\<open>for (int y = 1; y < visible.height-1; ++y)\<close> over the rows still to visit.\<close>

fun hist_y_loop :: "hog \<Rightarrow> mat \<Rightarrow> nat \<Rightarrow> nat \<Rightarrow> nat list \<Rightarrow> real list \<Rightarrow> error + real list" where
  "hist_y_loop cfg im bw bh [] hist = Inr hist"
| "hist_y_loop cfg im bw bh (y # ys) hist =
     (case hist_x_loop cfg im bw bh y [1..<bw * binsize cfg - 1] hist of
        Inl e \<Rightarrow> Inl e
      | Inr hist' \<Rightarrow> hist_y_loop cfg im bw bh ys hist')"

text \<open>
  The histogram after line 213, from \<open>Mat::zeros(Size(blocks.width*norient_,
  blocks.height))\<close>; \<open>visible = blocks*binsize_\<close>.
\<close>

definition hist_pass :: "hog \<Rightarrow> mat \<Rightarrow> error + real list" where
  "hist_pass cfg im =
     (let bh = blocks_of cfg (rows im); bw = blocks_of cfg (cols im)
      in hist_y_loop cfg im bw bh [1..<bh * binsize cfg - 1]
           (replicate (bw * norient cfg * bh) 0))"

subsection \<open>Block energies\<close>

text \<open>
  \<open>norm[i] += pow(hist[i*norient_+o] + hist[i*norient_+norient_/2+o], 2)\<close>, and the two
  loops around it, from \<open>Mat::zeros(Size(blocks.width, blocks.height))\<close>.
\<close>

definition norm_step :: "nat \<Rightarrow> real list \<Rightarrow> nat \<Rightarrow> nat \<Rightarrow> real list \<Rightarrow> real list" where
  "norm_step nor hist i ob nrm =
     nrm[i := nrm ! i + (hist ! (i * nor + ob) + hist ! (i * nor + nor div 2 + ob))\<^sup>2]"

definition norm_pass :: "nat \<Rightarrow> nat \<Rightarrow> nat \<Rightarrow> real list \<Rightarrow> real list" where
  "norm_pass nor bw bh hist =
     fold (\<lambda>i nrm. fold (norm_step nor hist i) [0..<9] nrm) [0..<bh * bw]
       (replicate (bw * bh) 0)"

subsection \<open>Feature assembly\<close>

text \<open>
  \<open>1.0f / sqrt(*p + *(p+1) + *(p+outsize.width) + *(p+outsize.width+1) + eps)\<close> for
  \<open>p\<close> as an offset into \<open>norm\<close>; \<open>ow\<close> is \<open>outsize.width\<close>.
\<close>

definition norm_scalar :: "real list \<Rightarrow> nat \<Rightarrow> nat \<Rightarrow> real" where
  "norm_scalar nrm ow p =
     1 / sqrt (nrm ! p + nrm ! (p + 1) + nrm ! (p + ow) + nrm ! (p + ow + 1) + eps)"

text \<open>\<open>n1\<close>, \<open>n2\<close>, \<open>n3\<close>, \<open>n4\<close> of the output cell \<open>(y, x)\<close>, lines 226 to 233.\<close>

definition norm_scalars :: "real list \<Rightarrow> nat \<Rightarrow> nat \<Rightarrow> nat \<Rightarrow> real \<times> real \<times> real \<times> real" where
  "norm_scalars nrm ow y x =
     (norm_scalar nrm ow ((y + 1) * ow + (x + 1)),
      norm_scalar nrm ow (y * ow + (x + 1)),
      norm_scalar nrm ow ((y + 1) * ow + x),
      norm_scalar nrm ow (y * ow + x))"

text \<open>The state of the two feature loops of one cell: \<open>feat\<close>, \<open>dst\<close>, \<open>t1\<close> to \<open>t4\<close>.\<close>

record cell_state =
  feat :: "real list"
  dst :: nat
  t1 :: real
  t2 :: real
  t3 :: real
  t4 :: real

text \<open>One round of the contrast-sensitive loop; \<open>src\<close> is the offset of the cell's histogram in \<open>hist\<close>.\<close>

definition sensitive_step :: "real list \<Rightarrow> real \<times> real \<times> real \<times> real \<Rightarrow> nat \<Rightarrow> nat \<Rightarrow> cell_state \<Rightarrow> cell_state" where
  "sensitive_step hist ns src ob st =
     (case ns of (n1, n2, n3, n4) \<Rightarrow>
       let h1 = min (hist ! (src + ob) * n1) 0.2;
           h2 = min (hist ! (src + ob) * n2) 0.2;
           h3 = min (hist ! (src + ob) * n3) 0.2;
           h4 = min (hist ! (src + ob) * n4) 0.2
       in st\<lparr> feat := (feat st)[dst st := 0.5 * (h1 + h2 + h3 + h4)],
               dst := dst st + 1,
               t1 := t1 st + h1, t2 := t2 st + h2, t3 := t3 st + h3, t4 := t4 st + h4 \<rparr>)"

text \<open>One round of the contrast-insensitive loop.\<close>

definition insensitive_step :: "nat \<Rightarrow> real list \<Rightarrow> real \<times> real \<times> real \<times> real \<Rightarrow> nat \<Rightarrow> nat \<Rightarrow> cell_state \<Rightarrow> cell_state" where
  "insensitive_step nor hist ns src ob st =
     (case ns of (n1, n2, n3, n4) \<Rightarrow>
       let sm = hist ! (src + ob) + hist ! (src + ob + nor div 2);
           h1 = min (sm * n1) 0.2;
           h2 = min (sm * n2) 0.2;
           h3 = min (sm * n3) 0.2;
           h4 = min (sm * n4) 0.2
       in st\<lparr> feat := (feat st)[dst st := 0.5 * (h1 + h2 + h3 + h4)], dst := dst st + 1 \<rparr>)"

text \<open>The texture features and the truncation feature, lines 264 to 271.\<close>

definition texture_step :: "cell_state \<Rightarrow> real list" where
  "texture_step st =
     (feat st)[dst st := 0.2357 * t1 st, dst st + 1 := 0.2357 * t2 st,
               dst st + 2 := 0.2357 * t3 st, dst st + 3 := 0.2357 * t4 st, dst st + 4 := 0]"

text \<open>
  The body of the two loops over the output cells, for the cell \<open>(y, x)\<close>. With
  \<open>norient_\<close> = 18 and \<open>flen_\<close> = 32 its reads of \<open>norm\<close> and \<open>hist\<close> and its 32
  stores into \<open>feat\<close> stay inside the three buffers (lemmas \<open>norm_read_in_range\<close>,
  \<open>hist_read_in_range\<close> and \<open>feat_write_in_range\<close>).
\<close>

definition feat_cell :: "hog \<Rightarrow> real list \<Rightarrow> real list \<Rightarrow> nat \<Rightarrow> nat \<Rightarrow> nat \<Rightarrow> nat \<Rightarrow> real list \<Rightarrow> real list" where
  "feat_cell cfg hist nrm bw ow y x fm =
     (let ns = norm_scalars nrm ow y x;
          src = ((y + 1) * bw + (x + 1)) * norient cfg;
          st = \<lparr> feat = fm, dst = (y * ow + x) * flen cfg, t1 = 0, t2 = 0, t3 = 0, t4 = 0 \<rparr>;
          st = fold (sensitive_step hist ns src) [0..<norient cfg] st;
          st = fold (insensitive_step (norient cfg) hist ns src) [0..<norient cfg div 2] st
      in texture_step st)"

text \<open>The two loops over the output cells, from \<open>Mat::zeros(Size(outsize.width*flen_,
  outsize.height))\<close>.\<close>

definition feat_pass :: "hog \<Rightarrow> real list \<Rightarrow> real list \<Rightarrow> nat \<Rightarrow> nat \<Rightarrow> nat \<Rightarrow> real list" where
  "feat_pass cfg hist nrm bw ow oh =
     fold (\<lambda>y fm. fold (\<lambda>x fm. feat_cell cfg hist nrm bw ow y x fm) [0..<ow] fm) [0..<oh]
       (replicate (ow * flen cfg * oh) 0)"

text \<open>
  The whole extractor. A zero \<open>binsize_\<close> makes the block counts the conversion of an
  infinite quotient to \<open>int\<close>, which has no defined value; the model stops there.
\<close>

definition features :: "hog \<Rightarrow> mat \<Rightarrow> error + mat" where
  "features cfg im =
     (if binsize cfg = 0 then Inl DivisionByZero
      else
        let bh = blocks_of cfg (rows im); bw = blocks_of cfg (cols im);
            oh = outsize_of bh; ow = outsize_of bw
        in case hist_pass cfg im of
             Inl e \<Rightarrow> Inl e
           | Inr hist \<Rightarrow>
               Inr \<lparr> rows = oh, cols = ow * flen cfg, channels = 1, depth = type_T cfg,
                     data = feat_pass cfg hist (norm_pass (norient cfg) bw bh hist) bw ow oh \<rparr>)"

section \<open>The pyramid builder \<open>HOGFeatures<T>::pyramid\<close>\<close>

text \<open>
  The Image Resampler, OpenCV's \<open>resize\<close> and \<open>pyrDown\<close>, is outside this
  repository: the model takes the two functions as parameters. \<open>resize\<close> receives
  the target size \<open>(width, height)\<close> as the \<open>Size_<float>\<close> the caller computes.
  Either call may throw instead of returning an image (the specification describes the
  resampler for the supported element types only); what it throws is the \<open>Inl\<close> value.
\<close>

record resampler =
  resize :: "mat \<Rightarrow> real \<times> real \<Rightarrow> error + mat"
  pyrDown :: "mat \<Rightarrow> error + mat"

text \<open>
  Modelled from the spec: the Border Padder, OpenCV's \<open>copyMakeBorder\<close> with
  \<open>BORDER_CONSTANT\<close>, which is outside this repository. It is the specification's
  \<open>pad(grid, top, bottom, left, right, fillValue)\<close>: the grid, framed by \<open>t\<close> rows above,
  \<open>b\<close> rows below, \<open>l\<close> columns on the left and \<open>r\<close> on the right that hold the
  fill value.
\<close>

definition copyMakeBorder :: "mat \<Rightarrow> nat \<Rightarrow> nat \<Rightarrow> nat \<Rightarrow> nat \<Rightarrow> real \<Rightarrow> mat" where
  "copyMakeBorder src t b l r fillValue =
     \<lparr> rows = rows src + t + b, cols = cols src + l + r,
       channels = channels src, depth = depth src,
       data = concat (map (\<lambda>i. map (\<lambda>j.
                if t \<le> i \<and> i < t + rows src \<and> l \<le> j \<and> j < l + cols src
                then data src ! ((i - t) * cols src + (j - l))
                else fillValue) [0..<cols src + l + r]) [0..<rows src + t + b]) \<rparr>"

text \<open>The cell in row \<open>i\<close> and column \<open>j\<close> of a matrix.\<close>

definition cell :: "mat \<Rightarrow> nat \<Rightarrow> nat \<Rightarrow> real" where
  "cell m i j = data m ! (i * cols m + j)"

text \<open>A default-constructed \<open>Mat\<close>, the element of a freshly resized \<open>vector<Mat>\<close>.\<close>

definition empty_mat :: mat where
  "empty_mat = \<lparr> rows = 0, cols = 0, channels = 1, depth = CV_8U, data = [] \<rparr>"

text \<open>\<open>int interval = ceil((float)nscales_ / 3.0)\<close>.\<close>

definition interval_of :: "nat \<Rightarrow> nat" where
  "interval_of ns = nat \<lceil>real ns / 3.0\<rceil>"

text \<open>
  \<open>for (int j = i+interval; j < nscales_; j+=interval)\<close>: every round halves
  \<open>scaled\<close>, the image of level \<open>i\<close>, and stores the result at level \<open>j\<close>. The loop
  is entered with \<open>i < interval\<close>, so its step is positive. A call of \<open>pyrDown\<close> that
  throws ends the loop.
\<close>

function pyr_j_loop :: "resampler \<Rightarrow> mat \<Rightarrow> nat \<Rightarrow> nat \<Rightarrow> nat \<Rightarrow> mat list \<Rightarrow> error + mat list" where
  "pyr_j_loop rs scaled interval ns j pyraimages =
     (if j < ns \<and> 0 < interval
      then (case pyrDown rs scaled of
              Inl e \<Rightarrow> Inl e
            | Inr scaled2 \<Rightarrow>
                pyr_j_loop rs scaled interval ns (j + interval) (pyraimages[j := scaled2]))
      else Inr pyraimages)"
  by pat_completeness auto
termination
  by (relation "measure (\<lambda>(rs, scaled, interval, ns, j, pyraimages). ns - j)") auto

declare pyr_j_loop.simps [simp del]

text \<open>One round of \<open>for (int i = 0; i < interval; ++i)\<close>; \<open>sc\<close> is
  \<open>pow(2.0, 1.0/(float)interval)\<close>.\<close>

definition pyr_i_step :: "resampler \<Rightarrow> mat \<Rightarrow> nat \<Rightarrow> nat \<Rightarrow> nat \<Rightarrow> mat list \<Rightarrow> error + mat list" where
  "pyr_i_step rs im ns interval i pyraimages =
     (let sc = 2 powr (1 / real interval)
      in case resize rs im (real (cols im) * (1 / sc ^ i), real (rows im) * (1 / sc ^ i)) of
           Inl e \<Rightarrow> Inl e
         | Inr scaled \<Rightarrow>
             pyr_j_loop rs scaled interval ns (i + interval) (pyraimages[i := scaled]))"

text \<open>The loop over \<open>i\<close>, on the values of \<open>i\<close> still to visit; the first call that throws
  ends it.\<close>

fun pyr_i_loop :: "resampler \<Rightarrow> mat \<Rightarrow> nat \<Rightarrow> nat \<Rightarrow> nat list \<Rightarrow> mat list \<Rightarrow> error + mat list" where
  "pyr_i_loop rs im ns interval [] pyraimages = Inr pyraimages"
| "pyr_i_loop rs im ns interval (i # todo) pyraimages =
     (case pyr_i_step rs im ns interval i pyraimages of
        Inl e \<Rightarrow> Inl e
      | Inr pyraimages' \<Rightarrow> pyr_i_loop rs im ns interval todo pyraimages')"

text \<open>The images of all levels, after line 95, from \<open>pyraimages.resize(nscales_)\<close>.\<close>

definition pyraimages_of :: "resampler \<Rightarrow> hog \<Rightarrow> mat \<Rightarrow> error + mat list" where
  "pyraimages_of rs cfg im =
     pyr_i_loop rs im (nscales cfg) (interval_of (nscales cfg))
       [0..<interval_of (nscales cfg)] (replicate (nscales cfg) empty_mat)"

text \<open>The \<open>switch (im.depth())\<close> of one level; \<open>d\<close> is the depth of the source image.\<close>

definition level_features :: "hog \<Rightarrow> cv_depth \<Rightarrow> mat \<Rightarrow> error + mat" where
  "level_features cfg d img =
     (case d of
        CV_32F \<Rightarrow> features cfg img
      | CV_64F \<Rightarrow> features cfg img
      | CV_8U \<Rightarrow> features cfg img
      | CV_16U \<Rightarrow> features cfg img
      | _ \<Rightarrow> Inl UnsupportedFormat)"

text \<open>One round of the loop over the levels: the switch, then
  \<open>copyMakeBorder(feature, padded, 1, 1, flen_, flen_, BORDER_CONSTANT, 1)\<close>.\<close>

definition pyramid_level :: "hog \<Rightarrow> cv_depth \<Rightarrow> mat \<Rightarrow> error + mat" where
  "pyramid_level cfg d img =
     (case level_features cfg d img of
        Inl e \<Rightarrow> Inl e
      | Inr feature \<Rightarrow> Inr (copyMakeBorder feature 1 1 (flen cfg) (flen cfg) 1))"

text \<open>\<open>for (int n = 0; n < nscales_; ++n)\<close> over the images still to process; the first
  error ends the call.\<close>

fun pyramid_loop :: "hog \<Rightarrow> cv_depth \<Rightarrow> mat list \<Rightarrow> error + mat list" where
  "pyramid_loop cfg d [] = Inr []"
| "pyramid_loop cfg d (img # imgs) =
     (case pyramid_level cfg d img of
        Inl e \<Rightarrow> Inl e
      | Inr padded \<Rightarrow>
          (case pyramid_loop cfg d imgs of
             Inl e \<Rightarrow> Inl e
           | Inr pyrafeatures \<Rightarrow> Inr (padded # pyrafeatures)))"

text \<open>
  The whole call: the object afterwards, and either the error or \<open>pyrafeatures\<close>.
  \<open>scales_.clear(); scales_.resize(nscales_)\<close> leaves \<open>nscales_\<close> zeros in
  \<open>scales_\<close>, and no later line stores into it. The images of all levels are made
  before the loop over the levels looks at the element type.
\<close>

definition pyramid :: "resampler \<Rightarrow> hog \<Rightarrow> mat \<Rightarrow> hog \<times> (error + mat list)" where
  "pyramid rs cfg im =
     (cfg\<lparr> scales := replicate (nscales cfg) 0 \<rparr>,
      case pyraimages_of rs cfg im of
        Inl e \<Rightarrow> Inl e
      | Inr pyraimages \<Rightarrow> pyramid_loop cfg (depth im) pyraimages)"

text \<open>The depths \<open>pyramid\<close> has a case for.\<close>

definition supported :: "cv_depth set" where
  "supported = {CV_8U, CV_16U, CV_32F, CV_64F}"

section \<open>Example inputs\<close>

text \<open>
  An extractor with 4-pixel cells, a resampler that returns its input, and one that
  throws at every call.
\<close>

definition hog4 :: hog where
  "hog4 = \<lparr> binsize = 4, nscales = 1, flen = 32, norient = 18, scales = [], type_T = CV_32F \<rparr>"

definition still :: resampler where
  "still = \<lparr> resize = (\<lambda>im sz. Inr im), pyrDown = (\<lambda>im. Inr im) \<rparr>"

definition failing :: resampler where
  "failing = \<lparr> resize = (\<lambda>im sz. Inl ResamplerFailure), pyrDown = (\<lambda>im. Inl ResamplerFailure) \<rparr>"

text \<open>A 2 x 2 single-channel image of zeros, of a given depth.\<close>

definition tiny :: "cv_depth \<Rightarrow> mat" where
  "tiny d = \<lparr> rows = 2, cols = 2, channels = 1, depth = d, data = [0, 0, 0, 0] \<rparr>"

text \<open>
  A 10 x 10 single-channel 8-bit image, zero except for the value 2 in row 8, column 7.
\<close>

definition spot :: mat where
  "spot = \<lparr> rows = 10, cols = 10, channels = 1, depth = CV_8U,
            data = map (\<lambda>i. if i = 87 then 2 else 0) [0..<100] \<rparr>"

text \<open>
  The histogram the extractor \<open>hog4\<close> builds from \<open>spot\<close>, and the feature map it
  returns (lemmas \<open>hist_pass_spot\<close> and \<open>features_spot\<close>).
\<close>

definition spot_hist :: "real list" where
  "spot_hist = (replicate 162 0)[76 := 25/32, 81 := 1/32, 94 := 15/32, 99 := 7/32,
      130 := 15/32, 135 := 7/32, 148 := 9/32, 153 := 49/32]"

definition spot_feature :: mat where
  "spot_feature = \<lparr> rows = 1, cols = 32, channels = 1, depth = CV_32F,
     data = feat_pass hog4 spot_hist (norm_pass 18 3 3 spot_hist) 3 1 1 \<rparr>"

section \<open>What the specification describes\<close>

text \<open>
  Step 4 of the specification's extractor: the weight of the pixel coordinate \<open>p\<close> for
  the block \<open>b\<close> along one axis, from the fractional cell coordinate
  \<open>((p + 0.5) / binsize) - 0.5\<close>: one minus the fraction for the block below the
  coordinate, the fraction for the block above it, nothing for any other block.
\<close>

definition bilinear_weight :: "nat \<Rightarrow> nat \<Rightarrow> nat \<Rightarrow> real" where
  "bilinear_weight bsize p b =
     (let fp = (real p + 0.5) / real bsize - 0.5;
          ip = \<lfloor>fp\<rfloor>;
          w = fp - real_of_int ip
      in if int b = ip then 1 - w else if int b = ip + 1 then w else 0)"

text \<open>
  What the pixel \<open>(x, y)\<close> adds to the histogram entry of block \<open>(cy, cx)\<close> and
  orientation bin \<open>ob\<close>: its gradient magnitude times the two weights, when the pixel's
  orientation is \<open>ob\<close>.
\<close>

definition contribution :: "hog \<Rightarrow> mat \<Rightarrow> nat \<Rightarrow> nat \<Rightarrow> nat \<Rightarrow> nat \<Rightarrow> nat \<Rightarrow> real" where
  "contribution cfg im cy cx ob x y =
     (case pixel_grad im x y of
        Inl e \<Rightarrow> 0
      | Inr (dx, dy, v) \<Rightarrow>
          if snap (norient cfg) dx dy = ob
          then bilinear_weight (binsize cfg) y cy * bilinear_weight (binsize cfg) x cx * sqrt v
          else 0)"

text \<open>The sum of the contributions of all pixels the histogram pass visits.\<close>

definition accumulated :: "hog \<Rightarrow> mat \<Rightarrow> nat \<Rightarrow> nat \<Rightarrow> nat \<Rightarrow> real" where
  "accumulated cfg im cy cx ob =
     (\<Sum>y\<leftarrow>[1..<blocks_of cfg (rows im) * binsize cfg - 1].
        \<Sum>x\<leftarrow>[1..<blocks_of cfg (cols im) * binsize cfg - 1]. contribution cfg im cy cx ob x y)"

text \<open>
  Step 6: the sum of the 2 x 2 neighbourhood of block energies whose top-left block is
  \<open>(cy, cx)\<close>, in a block-energy grid with \<open>bw\<close> blocks per row.
\<close>

definition energy_sum :: "real list \<Rightarrow> nat \<Rightarrow> nat \<Rightarrow> nat \<Rightarrow> real" where
  "energy_sum nrm bw cy cx =
     nrm ! (cy * bw + cx) + nrm ! (cy * bw + cx + 1)
       + nrm ! ((cy + 1) * bw + cx) + nrm ! ((cy + 1) * bw + cx + 1)"

section \<open>The extractor in the arithmetic of \<open>T\<close>\<close>

text \<open>
  The sections above compute with real numbers. The program computes with \<open>float\<close>
  and \<open>double\<close>: a result is rounded, it overflows to an infinity, and an operation
  without a value gives a NaN. This section is \<open>HOGFeatures<T>::features\<close> once more,
  statement by statement, in that arithmetic.
\<close>

subsection \<open>Floating-point values and operations\<close>

text \<open>
  A value of a floating-point type: a finite number, plus or minus infinity, or a NaN.
  The sign of a zero is not kept; the only place it shows is a division by a zero, and
  the divisors of this code that can be zero (a converted \<open>binsize_\<close>, a square root)
  are never a negative zero.
\<close>

datatype fp = Fin real | PInf | NInf | NaN

text \<open>C's \<open>a < b\<close>: false as soon as one side is a NaN.\<close>

fun flt :: "fp \<Rightarrow> fp \<Rightarrow> bool" where
  "flt (Fin a) (Fin b) = (a < b)"
| "flt (Fin a) PInf = True"
| "flt (Fin a) NInf = False"
| "flt (Fin a) NaN = False"
| "flt PInf y = False"
| "flt NInf (Fin b) = True"
| "flt NInf PInf = True"
| "flt NInf NInf = False"
| "flt NInf NaN = False"
| "flt NaN y = False"

text \<open>The order of the values that are not NaN.\<close>

fun fle :: "fp \<Rightarrow> fp \<Rightarrow> bool" where
  "fle (Fin a) (Fin b) = (a \<le> b)"
| "fle (Fin a) PInf = True"
| "fle (Fin a) NInf = False"
| "fle (Fin a) NaN = False"
| "fle PInf (Fin b) = False"
| "fle PInf PInf = True"
| "fle PInf NInf = False"
| "fle PInf NaN = False"
| "fle NInf (Fin b) = True"
| "fle NInf PInf = True"
| "fle NInf NInf = True"
| "fle NInf NaN = False"
| "fle NaN y = False"

fun fneg :: "fp \<Rightarrow> fp" where
  "fneg (Fin a) = Fin (- a)"
| "fneg PInf = NInf"
| "fneg NInf = PInf"
| "fneg NaN = NaN"

text \<open>
  The operations take the rounding \<open>r\<close> of their type: the exact result of two finite
  operands is rounded by \<open>r\<close>, which may also give an infinity (overflow).
\<close>

fun fadd :: "(real \<Rightarrow> fp) \<Rightarrow> fp \<Rightarrow> fp \<Rightarrow> fp" where
  "fadd r (Fin a) (Fin b) = r (a + b)"
| "fadd r (Fin a) PInf = PInf"
| "fadd r (Fin a) NInf = NInf"
| "fadd r (Fin a) NaN = NaN"
| "fadd r PInf (Fin b) = PInf"
| "fadd r PInf PInf = PInf"
| "fadd r PInf NInf = NaN"
| "fadd r PInf NaN = NaN"
| "fadd r NInf (Fin b) = NInf"
| "fadd r NInf PInf = NaN"
| "fadd r NInf NInf = NInf"
| "fadd r NInf NaN = NaN"
| "fadd r NaN y = NaN"

definition fsub :: "(real \<Rightarrow> fp) \<Rightarrow> fp \<Rightarrow> fp \<Rightarrow> fp" where
  "fsub r x y = fadd r x (fneg y)"

text \<open>The sign of a value that is not a NaN: 1, 0 or -1.\<close>

fun fsign :: "fp \<Rightarrow> int" where
  "fsign (Fin a) = (if 0 < a then 1 else if a < 0 then - 1 else 0)"
| "fsign PInf = 1"
| "fsign NInf = - 1"
| "fsign NaN = 0"

text \<open>An infinity times a zero is a NaN; any other product with an infinity is an
  infinity with the product of the signs.\<close>

fun fmul :: "(real \<Rightarrow> fp) \<Rightarrow> fp \<Rightarrow> fp \<Rightarrow> fp" where
  "fmul r (Fin a) (Fin b) = r (a * b)"
| "fmul r (Fin a) NaN = NaN"
| "fmul r PInf NaN = NaN"
| "fmul r NInf NaN = NaN"
| "fmul r NaN y = NaN"
| "fmul r x y =
     (if fsign x * fsign y = 0 then NaN else if 0 < fsign x * fsign y then PInf else NInf)"

text \<open>
  A finite number divided by zero is an infinity of its sign, zero by zero is a NaN, a
  finite number by an infinity is zero, and an infinity by an infinity is a NaN.
\<close>

fun fdiv :: "(real \<Rightarrow> fp) \<Rightarrow> fp \<Rightarrow> fp \<Rightarrow> fp" where
  "fdiv r (Fin a) (Fin b) =
     (if b \<noteq> 0 then r (a / b) else if 0 < a then PInf else if a < 0 then NInf else NaN)"
| "fdiv r (Fin a) PInf = Fin 0"
| "fdiv r (Fin a) NInf = Fin 0"
| "fdiv r (Fin a) NaN = NaN"
| "fdiv r PInf (Fin b) = (if 0 \<le> b then PInf else NInf)"
| "fdiv r NInf (Fin b) = (if 0 \<le> b then NInf else PInf)"
| "fdiv r PInf PInf = NaN"
| "fdiv r PInf NInf = NaN"
| "fdiv r PInf NaN = NaN"
| "fdiv r NInf PInf = NaN"
| "fdiv r NInf NInf = NaN"
| "fdiv r NInf NaN = NaN"
| "fdiv r NaN y = NaN"

fun fsqrt :: "(real \<Rightarrow> fp) \<Rightarrow> fp \<Rightarrow> fp" where
  "fsqrt r (Fin a) = (if 0 \<le> a then r (sqrt a) else NaN)"
| "fsqrt r PInf = PInf"
| "fsqrt r NInf = NaN"
| "fsqrt r NaN = NaN"

text \<open>
  The conversion of a value to the type with rounding \<open>r\<close>. A conversion from \<open>float\<close>
  to \<open>double\<close> changes nothing and is not written.
\<close>

fun cvt :: "(real \<Rightarrow> fp) \<Rightarrow> fp \<Rightarrow> fp" where
  "cvt r (Fin a) = r a"
| "cvt r PInf = PInf"
| "cvt r NInf = NInf"
| "cvt r NaN = NaN"

text \<open>\<open>std::min(a, b)\<close>, which is \<open>(b < a) ? b : a\<close>: a NaN in \<open>a\<close> is returned.\<close>

definition fmin :: "fp \<Rightarrow> fp \<Rightarrow> fp" where
  "fmin a b = (if flt b a then b else a)"

text \<open>
  The two roundings of the program, to \<open>float\<close> and to \<open>double\<close>, are parameters.
  \<open>T\<close> is \<open>float\<close> or \<open>double\<close> (the two instances declared at the top of the file),
  \<open>double\<close> when \<open>DataType<T>::type\<close> is \<open>CV_64F\<close>. \<open>IT\<close>, the sample type the
  \<open>switch\<close> of \<open>pyramid\<close> picks for the depth of the image, has exact differences
  when it is \<open>uint8_t\<close> or \<open>uint16_t\<close> (they are taken in \<open>int\<close>).
\<close>

record arith =
  rF :: "real \<Rightarrow> fp"
  rD :: "real \<Rightarrow> fp"

definition rT :: "arith \<Rightarrow> hog \<Rightarrow> real \<Rightarrow> fp" where
  "rT ar cfg = (if type_T cfg = CV_64F then rD ar else rF ar)"

definition rI :: "arith \<Rightarrow> cv_depth \<Rightarrow> real \<Rightarrow> fp" where
  "rI ar it = (case it of CV_32F \<Rightarrow> rF ar | CV_64F \<Rightarrow> rD ar | _ \<Rightarrow> Fin)"

text \<open>
  What the theorems below ask of a rounding. Round-to-nearest of binary32 and of binary64
  has the three properties: it is monotone (and never gives a NaN), it leaves the
  integers up to \<open>2^24\<close> as they are, and the floor of a representable number is
  representable.
\<close>

definition rounding :: "(real \<Rightarrow> fp) \<Rightarrow> bool" where
  "rounding r =
     ((\<forall>a b. a \<le> b \<longrightarrow> fle (r a) (r b))
      \<and> (\<forall>k::int. \<bar>k\<bar> \<le> 16777216 \<longrightarrow> r (real_of_int k) = Fin (real_of_int k))
      \<and> (\<forall>a b. r a = Fin b \<longrightarrow> r (real_of_int \<lfloor>b\<rfloor>) = Fin (real_of_int \<lfloor>b\<rfloor>)))"

subsection \<open>Images and sizes\<close>

text \<open>An image or a feature map whose cells are floating-point values.\<close>

record fmat =
  frows :: nat
  fcols :: nat
  fchannels :: nat
  fdepth :: cv_depth
  fdata :: "fp list"

definition fcell :: "fmat \<Rightarrow> nat \<Rightarrow> nat \<Rightarrow> fp" where
  "fcell m i j = fdata m ! (i * fcols m + j)"

text \<open>
  \<open>round((float)blocks.height / (float)binsize_)\<close>, converted to \<open>int\<close>: the
  quotient is a \<open>float\<close>. The conversion of a value that is not finite to \<open>int\<close>
  has no defined result, and the model stops there.
\<close>

definition blocks_T :: "arith \<Rightarrow> hog \<Rightarrow> nat \<Rightarrow> error + nat" where
  "blocks_T ar cfg extent =
     (case fdiv (rF ar) (rF ar (real extent)) (rF ar (real (binsize cfg))) of
        Fin q \<Rightarrow> Inr (nat (c_round q))
      | _ \<Rightarrow> Inl BadConversion)"

subsection \<open>Gradient of one pixel\<close>

definition sample_offset_T :: "fmat \<Rightarrow> nat \<Rightarrow> nat \<Rightarrow> int" where
  "sample_offset_T im x y =
     min (int x) (int (fcols im) - 2) + min (int y) (int (frows im) - 2) * int (fcols im)"

definition grad_offsets_T :: "fmat \<Rightarrow> int \<Rightarrow> int list" where
  "grad_offsets_T im s = [s + int (fcols im), s - int (fcols im), s + 1, s - 1]"

definition in_buffer_T :: "fmat \<Rightarrow> int \<Rightarrow> bool" where
  "in_buffer_T im i = (0 \<le> i \<and> i < int (length (fdata im)))"

text \<open>
  \<open>T dy = *(s+imsize.width) - *(s-imsize.width)\<close>: the difference is taken in the
  arithmetic of \<open>IT\<close> and converted to \<open>T\<close>. \<open>T v = dx*dx + dy*dy\<close> is computed in
  \<open>T\<close>.
\<close>

definition channel_grad_T :: "arith \<Rightarrow> hog \<Rightarrow> cv_depth \<Rightarrow> fmat \<Rightarrow> int \<Rightarrow> error + fp \<times> fp \<times> fp" where
  "channel_grad_T ar cfg it im s =
     (if list_all (in_buffer_T im) (grad_offsets_T im s)
      then
        let r = rT ar cfg;
            dy = cvt r (fsub (rI ar it) (fdata im ! nat (s + int (fcols im)))
                                       (fdata im ! nat (s - int (fcols im))));
            dx = cvt r (fsub (rI ar it) (fdata im ! nat (s + 1)) (fdata im ! nat (s - 1)))
        in Inr (dx, dy, fadd r (fmul r dx dx) (fmul r dy dy))
      else Inl OutOfBounds)"

text \<open>\<open>if (vg > v) { v = vg; dx = dxg; dy = dyg; }\<close>.\<close>

definition stronger_T :: "fp \<times> fp \<times> fp \<Rightarrow> fp \<times> fp \<times> fp \<Rightarrow> fp \<times> fp \<times> fp" where
  "stronger_T cur other = (if flt (snd (snd cur)) (snd (snd other)) then other else cur)"

definition pixel_grad_T :: "arith \<Rightarrow> hog \<Rightarrow> cv_depth \<Rightarrow> fmat \<Rightarrow> nat \<Rightarrow> nat \<Rightarrow> error + fp \<times> fp \<times> fp" where
  "pixel_grad_T ar cfg it im x y =
     (let s = sample_offset_T im x y; plane = int (fcols im) * int (frows im)
      in case channel_grad_T ar cfg it im s of
           Inl e \<Rightarrow> Inl e
         | Inr b \<Rightarrow>
             if fchannels im = 3
             then (case channel_grad_T ar cfg it im (s + plane) of
                     Inl e \<Rightarrow> Inl e
                   | Inr g \<Rightarrow>
                       (case channel_grad_T ar cfg it im (s + plane + plane) of
                          Inl e \<Rightarrow> Inl e
                        | Inr r \<Rightarrow> Inr (stronger_T (stronger_T b g) r)))
             else Inr b)"

subsection \<open>Orientation\<close>

text \<open>
  \<open>const T uu[9]\<close> and \<open>vv[9]\<close>: each \<open>double\<close> literal converted to \<open>T\<close>. One round
  of the loop computes \<open>T dot = uu[o]*dx + vv[o]*dy\<close> in \<open>T\<close>.
\<close>

definition snap_step_T :: "arith \<Rightarrow> hog \<Rightarrow> fp \<Rightarrow> fp \<Rightarrow> nat \<Rightarrow> fp \<times> nat \<Rightarrow> fp \<times> nat" where
  "snap_step_T ar cfg dx dy ob st =
     (let r = rT ar cfg;
          dot = fadd r (fmul r (cvt r (rD ar (uu ! ob))) dx) (fmul r (cvt r (rD ar (vv ! ob))) dy)
      in if flt (fst st) dot then (dot, ob)
         else if flt (fst st) (fneg dot) then (fneg dot, ob + 9)
         else st)"

definition snap_T :: "arith \<Rightarrow> hog \<Rightarrow> fp \<Rightarrow> fp \<Rightarrow> nat" where
  "snap_T ar cfg dx dy = snd (fold (snap_step_T ar cfg dx dy) [0..<norient cfg div 2] (Fin 0, 0))"

subsection \<open>The histogram pass\<close>

text \<open>
  \<open>((T)y+0.5)/(T)binsize_ - 0.5\<close> for the pixel coordinate \<open>p\<close>: the literals are
  \<open>double\<close>, so the sum, the quotient and the difference are computed in \<open>double\<close>,
  and the result is converted to \<open>T\<close>.
\<close>

definition cell_coord_T :: "arith \<Rightarrow> hog \<Rightarrow> nat \<Rightarrow> fp" where
  "cell_coord_T ar cfg p =
     cvt (rT ar cfg)
       (fsub (rD ar)
          (fdiv (rD ar) (fadd (rD ar) (rT ar cfg (real p)) (rD ar 0.5))
                        (rT ar cfg (real (binsize cfg))))
          (rD ar 0.5))"

text \<open>
  \<open>T vy0 = yp-iyp\<close> for the coordinate \<open>yp\<close> with floor \<open>iyp\<close>: the \<open>int\<close> is
  converted to \<open>T\<close> and the difference is taken in \<open>T\<close>. \<open>T vy1 = 1.0-vy0\<close> is taken
  in \<open>double\<close> and converted.
\<close>

definition weight0_T :: "arith \<Rightarrow> hog \<Rightarrow> real \<Rightarrow> fp" where
  "weight0_T ar cfg c = fsub (rT ar cfg) (Fin c) (rT ar cfg (real_of_int \<lfloor>c\<rfloor>))"

definition weight1_T :: "arith \<Rightarrow> hog \<Rightarrow> real \<Rightarrow> fp" where
  "weight1_T ar cfg c = cvt (rT ar cfg) (fsub (rD ar) (rD ar 1.0) (weight0_T ar cfg c))"

text \<open>
  Lines 188 to 211 for the pixel \<open>(x, y)\<close> with gradient \<open>(dx, dy, v)\<close>: the four
  statements \<open>if (guard) *(hist + i) = w;\<close> in their order, each as \<open>(guard, i, w)\<close>.
  \<open>(int)floor(yp)\<close> has a value when \<open>yp\<close> is finite.
\<close>

definition hist_stores_T ::
  "arith \<Rightarrow> hog \<Rightarrow> nat \<Rightarrow> nat \<Rightarrow> nat \<Rightarrow> nat \<Rightarrow> fp \<times> fp \<times> fp \<Rightarrow> error + (bool \<times> int \<times> fp) list" where
  "hist_stores_T ar cfg bw bh x y g =
     (case g of (dx, dy, v) \<Rightarrow>
       (case (cell_coord_T ar cfg y, cell_coord_T ar cfg x) of
          (Fin yp, Fin xp) \<Rightarrow>
            let r = rT ar cfg;
                best_o = int (snap_T ar cfg dx dy);
                no = int (norient cfg);
                iyp = \<lfloor>yp\<rfloor>;
                ixp = \<lfloor>xp\<rfloor>;
                vy0 = weight0_T ar cfg yp;
                vx0 = weight0_T ar cfg xp;
                vy1 = weight1_T ar cfg yp;
                vx1 = weight1_T ar cfg xp;
                v = fsqrt r v
            in Inr [(iyp \<ge> 0 \<and> ixp \<ge> 0,
                       (iyp * int bw + ixp) * no + best_o, fmul r (fmul r vy1 vx1) v),
                    (iyp \<ge> 0 \<and> ixp + 1 < int bw,
                       (iyp * int bw + ixp + 1) * no + best_o, fmul r (fmul r vx1 vy0) v),
                    (iyp + 1 < int bh \<and> ixp \<ge> 0,
                       ((iyp + 1) * int bw + ixp) * no + best_o, fmul r (fmul r vy1 vx0) v),
                    (iyp + 1 < int bh \<and> ixp + 1 < int bw,
                       ((iyp + 1) * int bw + ixp + 1) * no + best_o, fmul r (fmul r vy0 vx0) v)]
        | _ \<Rightarrow> Inl BadConversion))"

text \<open>One such statement; a store outside the histogram has no defined effect.\<close>

definition guarded_store_T :: "bool \<times> int \<times> fp \<Rightarrow> fp list \<Rightarrow> error + fp list" where
  "guarded_store_T s hist =
     (case s of (guard, i, w) \<Rightarrow>
        if guard
        then (if 0 \<le> i \<and> i < int (length hist) then Inr (hist[nat i := w])
              else Inl OutOfBounds)
        else Inr hist)"

fun stores_T :: "(bool \<times> int \<times> fp) list \<Rightarrow> fp list \<Rightarrow> error + fp list" where
  "stores_T [] hist = Inr hist"
| "stores_T (s # ss) hist =
     (case guarded_store_T s hist of
        Inl e \<Rightarrow> Inl e
      | Inr hist' \<Rightarrow> stores_T ss hist')"

definition hist_pixel_T ::
  "arith \<Rightarrow> hog \<Rightarrow> nat \<Rightarrow> nat \<Rightarrow> nat \<Rightarrow> nat \<Rightarrow> fp \<times> fp \<times> fp \<Rightarrow> fp list \<Rightarrow> error + fp list" where
  "hist_pixel_T ar cfg bw bh x y g hist =
     (case hist_stores_T ar cfg bw bh x y g of
        Inl e \<Rightarrow> Inl e
      | Inr ss \<Rightarrow> stores_T ss hist)"

fun hist_x_loop_T ::
  "arith \<Rightarrow> hog \<Rightarrow> cv_depth \<Rightarrow> fmat \<Rightarrow> nat \<Rightarrow> nat \<Rightarrow> nat \<Rightarrow> nat list \<Rightarrow> fp list \<Rightarrow> error + fp list" where
  "hist_x_loop_T ar cfg it im bw bh y [] hist = Inr hist"
| "hist_x_loop_T ar cfg it im bw bh y (x # xs) hist =
     (case pixel_grad_T ar cfg it im x y of
        Inl e \<Rightarrow> Inl e
      | Inr g \<Rightarrow>
          (case hist_pixel_T ar cfg bw bh x y g hist of
             Inl e \<Rightarrow> Inl e
           | Inr hist' \<Rightarrow> hist_x_loop_T ar cfg it im bw bh y xs hist'))"

fun hist_y_loop_T ::
  "arith \<Rightarrow> hog \<Rightarrow> cv_depth \<Rightarrow> fmat \<Rightarrow> nat \<Rightarrow> nat \<Rightarrow> nat list \<Rightarrow> fp list \<Rightarrow> error + fp list" where
  "hist_y_loop_T ar cfg it im bw bh [] hist = Inr hist"
| "hist_y_loop_T ar cfg it im bw bh (y # ys) hist =
     (case hist_x_loop_T ar cfg it im bw bh y [1..<bw * binsize cfg - 1] hist of
        Inl e \<Rightarrow> Inl e
      | Inr hist' \<Rightarrow> hist_y_loop_T ar cfg it im bw bh ys hist')"

definition hist_pass_T :: "arith \<Rightarrow> hog \<Rightarrow> cv_depth \<Rightarrow> fmat \<Rightarrow> nat \<Rightarrow> nat \<Rightarrow> error + fp list" where
  "hist_pass_T ar cfg it im bw bh =
     hist_y_loop_T ar cfg it im bw bh [1..<bh * binsize cfg - 1]
       (replicate (bw * norient cfg * bh) (Fin 0))"

subsection \<open>Block energies\<close>

text \<open>
  \<open>norm[i] += pow(hist[i*norient_+o] + hist[i*norient_+norient_/2+o], 2)\<close>: the sum of
  the two entries is taken in \<open>T\<close>; \<open>pow\<close> returns a \<open>double\<close>, here the rounded
  square; the addition to \<open>norm[i]\<close> is in \<open>double\<close> and the result is converted to
  \<open>T\<close>.
\<close>

definition norm_step_T :: "arith \<Rightarrow> hog \<Rightarrow> fp list \<Rightarrow> nat \<Rightarrow> nat \<Rightarrow> fp list \<Rightarrow> fp list" where
  "norm_step_T ar cfg hist i ob nrm =
     (let r = rT ar cfg;
          s = fadd r (hist ! (i * norient cfg + ob))
                     (hist ! (i * norient cfg + norient cfg div 2 + ob))
      in nrm[i := cvt r (fadd (rD ar) (nrm ! i) (fmul (rD ar) s s))])"

definition norm_pass_T :: "arith \<Rightarrow> hog \<Rightarrow> nat \<Rightarrow> nat \<Rightarrow> fp list \<Rightarrow> fp list" where
  "norm_pass_T ar cfg bw bh hist =
     fold (\<lambda>i nrm. fold (norm_step_T ar cfg hist i) [0..<9] nrm) [0..<bh * bw]
       (replicate (bw * bh) (Fin 0))"

subsection \<open>Feature assembly\<close>

text \<open>
  \<open>1.0f / sqrt(*p + *(p+1) + *(p+outsize.width) + *(p+outsize.width+1) + eps)\<close>: the
  three sums of entries are taken in \<open>T\<close>; \<open>eps\<close> is a \<open>double\<close>, so the last sum,
  the square root and the quotient are computed in \<open>double\<close>; the result is converted to
  \<open>T\<close>.
\<close>

definition norm_scalar_T :: "arith \<Rightarrow> hog \<Rightarrow> fp list \<Rightarrow> nat \<Rightarrow> nat \<Rightarrow> fp" where
  "norm_scalar_T ar cfg nrm ow p =
     (let r = rT ar cfg
      in cvt r (fdiv (rD ar) (rF ar 1)
                  (fsqrt (rD ar)
                     (fadd (rD ar)
                        (fadd r (fadd r (fadd r (nrm ! p) (nrm ! (p + 1))) (nrm ! (p + ow)))
                                (nrm ! (p + ow + 1)))
                        (rD ar eps)))))"

definition norm_scalars_T :: "arith \<Rightarrow> hog \<Rightarrow> fp list \<Rightarrow> nat \<Rightarrow> nat \<Rightarrow> nat \<Rightarrow> fp \<times> fp \<times> fp \<times> fp" where
  "norm_scalars_T ar cfg nrm ow y x =
     (norm_scalar_T ar cfg nrm ow ((y + 1) * ow + (x + 1)),
      norm_scalar_T ar cfg nrm ow (y * ow + (x + 1)),
      norm_scalar_T ar cfg nrm ow ((y + 1) * ow + x),
      norm_scalar_T ar cfg nrm ow (y * ow + x))"

text \<open>\<open>(T)0.2\<close>: the \<open>double\<close> literal converted to \<open>T\<close>.\<close>

definition trunc_T :: "arith \<Rightarrow> hog \<Rightarrow> fp" where
  "trunc_T ar cfg = cvt (rT ar cfg) (rD ar 0.2)"

text \<open>
  \<open>0.5 * (h1 + h2 + h3 + h4)\<close> as it is stored: the three sums are taken in \<open>T\<close>, the
  product with the \<open>double\<close> literal in \<open>double\<close>, and the result is converted to
  \<open>T\<close>.
\<close>

definition half_sum_T :: "arith \<Rightarrow> hog \<Rightarrow> fp \<Rightarrow> fp \<Rightarrow> fp \<Rightarrow> fp \<Rightarrow> fp" where
  "half_sum_T ar cfg h1 h2 h3 h4 =
     (let r = rT ar cfg
      in cvt r (fmul (rD ar) (rD ar 0.5) (fadd r (fadd r (fadd r h1 h2) h3) h4)))"

record cell_state_T =
  feat_T :: "fp list"
  dst_T :: nat
  t1_T :: fp
  t2_T :: fp
  t3_T :: fp
  t4_T :: fp

text \<open>One round of the contrast-sensitive loop, lines 240 to 249.\<close>

definition sensitive_step_T ::
  "arith \<Rightarrow> hog \<Rightarrow> fp list \<Rightarrow> fp \<times> fp \<times> fp \<times> fp \<Rightarrow> nat \<Rightarrow> nat \<Rightarrow> cell_state_T \<Rightarrow> cell_state_T" where
  "sensitive_step_T ar cfg hist ns src ob st =
     (case ns of (n1, n2, n3, n4) \<Rightarrow>
       let r = rT ar cfg;
           h1 = fmin (fmul r (hist ! (src + ob)) n1) (trunc_T ar cfg);
           h2 = fmin (fmul r (hist ! (src + ob)) n2) (trunc_T ar cfg);
           h3 = fmin (fmul r (hist ! (src + ob)) n3) (trunc_T ar cfg);
           h4 = fmin (fmul r (hist ! (src + ob)) n4) (trunc_T ar cfg)
       in st\<lparr> feat_T := (feat_T st)[dst_T st := half_sum_T ar cfg h1 h2 h3 h4],
               dst_T := dst_T st + 1,
               t1_T := fadd r (t1_T st) h1, t2_T := fadd r (t2_T st) h2,
               t3_T := fadd r (t3_T st) h3, t4_T := fadd r (t4_T st) h4 \<rparr>)"

text \<open>One round of the contrast-insensitive loop, lines 255 to 261; \<open>sum\<close> is a \<open>T\<close>.\<close>

definition insensitive_step_T ::
  "arith \<Rightarrow> hog \<Rightarrow> fp list \<Rightarrow> fp \<times> fp \<times> fp \<times> fp \<Rightarrow> nat \<Rightarrow> nat \<Rightarrow> cell_state_T \<Rightarrow> cell_state_T" where
  "insensitive_step_T ar cfg hist ns src ob st =
     (case ns of (n1, n2, n3, n4) \<Rightarrow>
       let r = rT ar cfg;
           sm = fadd r (hist ! (src + ob)) (hist ! (src + ob + norient cfg div 2));
           h1 = fmin (fmul r sm n1) (trunc_T ar cfg);
           h2 = fmin (fmul r sm n2) (trunc_T ar cfg);
           h3 = fmin (fmul r sm n3) (trunc_T ar cfg);
           h4 = fmin (fmul r sm n4) (trunc_T ar cfg)
       in st\<lparr> feat_T := (feat_T st)[dst_T st := half_sum_T ar cfg h1 h2 h3 h4],
               dst_T := dst_T st + 1 \<rparr>)"

text \<open>\<open>0.2357 * t1\<close> as it is stored: the product in \<open>double\<close>, converted to \<open>T\<close>.\<close>

definition texture_T :: "arith \<Rightarrow> hog \<Rightarrow> fp \<Rightarrow> fp" where
  "texture_T ar cfg t = cvt (rT ar cfg) (fmul (rD ar) (rD ar 0.2357) t)"

definition texture_step_T :: "arith \<Rightarrow> hog \<Rightarrow> cell_state_T \<Rightarrow> fp list" where
  "texture_step_T ar cfg st =
     (feat_T st)[dst_T st := texture_T ar cfg (t1_T st), dst_T st + 1 := texture_T ar cfg (t2_T st),
                 dst_T st + 2 := texture_T ar cfg (t3_T st),
                 dst_T st + 3 := texture_T ar cfg (t4_T st), dst_T st + 4 := Fin 0]"

definition feat_cell_T ::
  "arith \<Rightarrow> hog \<Rightarrow> fp list \<Rightarrow> fp list \<Rightarrow> nat \<Rightarrow> nat \<Rightarrow> nat \<Rightarrow> nat \<Rightarrow> fp list \<Rightarrow> fp list" where
  "feat_cell_T ar cfg hist nrm bw ow y x fm =
     (let ns = norm_scalars_T ar cfg nrm ow y x;
          src = ((y + 1) * bw + (x + 1)) * norient cfg;
          st = \<lparr> feat_T = fm, dst_T = (y * ow + x) * flen cfg,
                 t1_T = Fin 0, t2_T = Fin 0, t3_T = Fin 0, t4_T = Fin 0 \<rparr>;
          st = fold (sensitive_step_T ar cfg hist ns src) [0..<norient cfg] st;
          st = fold (insensitive_step_T ar cfg hist ns src) [0..<norient cfg div 2] st
      in texture_step_T ar cfg st)"

definition feat_pass_T :: "arith \<Rightarrow> hog \<Rightarrow> fp list \<Rightarrow> fp list \<Rightarrow> nat \<Rightarrow> nat \<Rightarrow> nat \<Rightarrow> fp list" where
  "feat_pass_T ar cfg hist nrm bw ow oh =
     fold (\<lambda>y fm. fold (\<lambda>x fm. feat_cell_T ar cfg hist nrm bw ow y x fm) [0..<ow] fm) [0..<oh]
       (replicate (ow * flen cfg * oh) (Fin 0))"

text \<open>
  The whole extractor, called with the sample type \<open>IT\<close> of the depth \<open>it\<close>. The three
  matrices start as zeros; the loops are those of the sections above.
\<close>

definition features_T :: "arith \<Rightarrow> hog \<Rightarrow> cv_depth \<Rightarrow> fmat \<Rightarrow> error + fmat" where
  "features_T ar cfg it im =
     (case blocks_T ar cfg (frows im) of
        Inl e \<Rightarrow> Inl e
      | Inr bh \<Rightarrow>
          (case blocks_T ar cfg (fcols im) of
             Inl e \<Rightarrow> Inl e
           | Inr bw \<Rightarrow>
               let oh = outsize_of bh; ow = outsize_of bw
               in case hist_pass_T ar cfg it im bw bh of
                    Inl e \<Rightarrow> Inl e
                  | Inr hist \<Rightarrow>
                      Inr \<lparr> frows = oh, fcols = ow * flen cfg, fchannels = 1, fdepth = type_T cfg,
                            fdata = feat_pass_T ar cfg hist (norm_pass_T ar cfg bw bh hist)
                                      bw ow oh \<rparr>))"


subsection \<open>An example\<close>

text \<open>
  An extractor with cells of one pixel, and a 3 x 3 single-channel 8-bit image, zero
  except for the value 2 in row 1, column 2. The loops over the pixels visit the one
  pixel (1, 1), whose gradient is (2, 0).
\<close>

definition hog1 :: hog where
  "hog1 = \<lparr> binsize = 1, nscales = 1, flen = 32, norient = 18, scales = [], type_T = CV_32F \<rparr>"



section \<open>Predicates for the proofs\<close>

text \<open>A value that is not negative: a NaN, plus infinity, or a finite number from 0 on.\<close>

definition nn :: "fp \<Rightarrow> bool" where
  "nn x = (x = NaN \<or> fle (Fin 0) x)"


text \<open>A value that is a NaN or lies between 0 and \<open>b\<close>.\<close>

definition bounded_by :: "fp \<Rightarrow> fp \<Rightarrow> bool" where
  "bounded_by b x = (x = NaN \<or> (fle (Fin 0) x \<and> fle x b))"


section \<open>Round to nearest in binary32 and binary64\<close>

text \<open>The integer nearest to a real number, the even one of the two when it lies half way.\<close>

definition rne :: "real \<Rightarrow> int" where
  "rne x =
     (if x - real_of_int \<lfloor>x\<rfloor> < 1 / 2 then \<lfloor>x\<rfloor>
      else if 1 / 2 < x - real_of_int \<lfloor>x\<rfloor> then \<lfloor>x\<rfloor> + 1
      else if even \<lfloor>x\<rfloor> then \<lfloor>x\<rfloor> else \<lfloor>x\<rfloor> + 1)"

definition pow2 :: "int \<Rightarrow> real" where
  "pow2 k = 2 powr real_of_int k"

text \<open>
  The exponent of the binade of a number that is not zero, in a format whose smallest
  normal exponent is \<open>emin\<close>: below \<open>2^emin\<close> the numbers are subnormal and share the
  exponent \<open>emin\<close>.
\<close>

definition binade :: "int \<Rightarrow> real \<Rightarrow> int" where
  "binade emin x = max emin \<lfloor>log 2 \<bar>x\<bar>\<rfloor>"

text \<open>
  Round to nearest, ties to even, in the binary format with \<open>p\<close> significant bits and
  the exponents \<open>emin\<close> to \<open>emax\<close>: the number is rounded to a multiple of the unit of
  its binade, and a result that has left the format is an infinity.
\<close>

definition rounded :: "nat \<Rightarrow> int \<Rightarrow> real \<Rightarrow> real" where
  "rounded p emin x =
     pow2 (binade emin x - int p + 1)
       * real_of_int (rne (x / pow2 (binade emin x - int p + 1)))"

definition ieee_round :: "nat \<Rightarrow> int \<Rightarrow> int \<Rightarrow> real \<Rightarrow> fp" where
  "ieee_round p emin emax x =
     (if x = 0 then Fin 0
      else if pow2 (emax + 1) \<le> \<bar>rounded p emin x\<bar> then (if 0 < x then PInf else NInf)
      else Fin (rounded p emin x))"

definition binary32 :: "real \<Rightarrow> fp" where
  "binary32 = ieee_round 24 (- 126) 127"

definition binary64 :: "real \<Rightarrow> fp" where
  "binary64 = ieee_round 53 (- 1022) 1023"

text \<open>The arithmetic of the program: \<open>float\<close> is binary32 and \<open>double\<close> is binary64.\<close>

definition ieee :: arith where
  "ieee = \<lparr> rF = binary32, rD = binary64 \<rparr>"


text \<open>
  An arithmetic that is exact at the four values the example needs besides the small
  integers.
\<close>

definition exact_at_fractions :: "arith \<Rightarrow> bool" where
  "exact_at_fractions ar =
     (rD ar (1 / 2) = Fin (1 / 2) \<and> rD ar (3 / 2) = Fin (3 / 2) \<and> rD ar (1 / 4) = Fin (1 / 4)
      \<and> rF ar (1 / 4) = Fin (1 / 4) \<and> rF ar (1 / 2) = Fin (1 / 2))"

subsection \<open>An example that overflows\<close>

text \<open>
  The \<open>float\<close> nearest to \<open>1e20\<close>, which is 11368684 * 2^43, and a 3 x 3 single-channel
  \<open>float\<close> image, zero except for that value in row 1, column 2. The one visited pixel
  (1, 1) has the gradient \<open>(big, 0)\<close>, whose squared length is above the largest
  \<open>float\<close>.
\<close>

definition big :: real where
  "big = 100000002004087734272"

definition glare3 :: fmat where
  "glare3 = \<lparr> frows = 3, fcols = 3, fchannels = 1, fdepth = CV_32F,
     fdata = [Fin 0, Fin 0, Fin 0, Fin 0, Fin 0, Fin big, Fin 0, Fin 0, Fin 0] \<rparr>"

text \<open>
  The histogram the extractor \<open>hog1\<close> builds from \<open>glare3\<close> (lemma
  \<open>hist_pass_T_glare3_any\<close>): the four stores of the pixel are the products of the
  weights 1, 0, 0 and 0 with an infinite gradient magnitude.
\<close>

definition glare3_hist :: "fp list" where
  "glare3_hist = (replicate 162 (Fin 0))[72 := PInf, 90 := NaN, 126 := NaN, 144 := NaN]"

definition glare3_map :: "arith \<Rightarrow> fmat" where
  "glare3_map ar = \<lparr> frows = 1, fcols = 32, fchannels = 1, fdepth = CV_32F,
     fdata = feat_pass_T ar hog1 glare3_hist (norm_pass_T ar hog1 3 3 glare3_hist) 3 1 1 \<rparr>"

text \<open>An arithmetic in which \<open>big\<close> is a \<open>float\<close> and its square is not.\<close>

definition big_overflows :: "arith \<Rightarrow> bool" where
  "big_overflows ar =
     (rF ar big = Fin big \<and> rF ar (- big) = Fin (- big) \<and> rF ar (big * big) = PInf)"

section \<open>Properties of the convolution\<close>

lemma conv_while_eq:
  "conv_while f g bound (a, fp, ft) =
     (a + (\<Sum>k\<leftarrow>[0..<bound - fp]. f ! (fp + k) * g ! (ft + k)), max fp bound, ft + (bound - fp))"
proof (induction f g bound "(a, fp, ft)" arbitrary: a fp ft rule: conv_while.induct)
  case (1 f g bound a fp ft)
  show ?case
  proof (cases "fp < bound")
    case True
    then have len: "bound - fp = Suc (bound - Suc fp)" by simp
    have "[0..<bound - fp] = 0 # map Suc [0..<bound - Suc fp]"
      unfolding len by (simp add: upt_conv_Cons map_Suc_upt del: upt_Suc)
    then have split: "(\<Sum>k\<leftarrow>[0..<bound - fp]. f ! (fp + k) * g ! (ft + k)) =
        f ! fp * g ! ft + (\<Sum>k\<leftarrow>[0..<bound - Suc fp]. f ! (Suc fp + k) * g ! (Suc ft + k))"
      by (simp add: comp_def)
    from True "1.hyps"[OF True] show ?thesis
      by (subst conv_while.simps) (simp add: split max_def)
  next
    case False
    then show ?thesis
      by (subst conv_while.simps) (simp add: max_def)
  qed
qed

text \<open>
  After the rounds \<open>h = 0, ..., k\<close> the accumulator holds the filter rows \<open>0, ..., k - 1\<close>:
  round \<open>h\<close> runs the while loop up to \<open>filt_start + h*W\<close>, so round 0 multiplies
  nothing and the last filter row is never reached.
\<close>

lemma conv_h_fold:
  "fold (conv_h_step feature filt m n) [0..<Suc k] (0, 0, m * cols feature + n) =
     ((\<Sum>h\<leftarrow>[0..<k]. row_product feature filt m n h), k * cols filt, (m + k) * cols feature + n)"
proof (induction k)
  case 0
  show ?case
    by (simp add: conv_h_step_def conv_while_eq)
next
  case (Suc k)
  have "fold (conv_h_step feature filt m n) [0..<Suc (Suc k)] (0, 0, m * cols feature + n) =
        conv_h_step feature filt m n (Suc k)
          (fold (conv_h_step feature filt m n) [0..<Suc k] (0, 0, m * cols feature + n))"
    by simp
  also have "\<dots> = conv_h_step feature filt m n (Suc k)
       ((\<Sum>h\<leftarrow>[0..<k]. row_product feature filt m n h), k * cols filt, (m + k) * cols feature + n)"
    by (simp only: Suc.IH)
  also have "\<dots> = ((\<Sum>h\<leftarrow>[0..<Suc k]. row_product feature filt m n h), Suc k * cols filt,
       (m + Suc k) * cols feature + n)"
  proof -
    have w: "conv_while (data filt) (data feature) (Suc k * cols filt)
         ((\<Sum>h\<leftarrow>[0..<k]. row_product feature filt m n h), k * cols filt, (m + k) * cols feature + n) =
       ((\<Sum>h\<leftarrow>[0..<k]. row_product feature filt m n h) + row_product feature filt m n k,
         Suc k * cols filt, (m + k) * cols feature + n + cols filt)"
      unfolding conv_while_eq row_product_def by (simp add: add.assoc)
    show ?thesis
      unfolding conv_h_step_def w by simp
  qed
  finally show ?case .
qed

lemma conv_accum_eq:
  "conv_accum feature filt m n = (\<Sum>h\<leftarrow>[0..<rows filt - 1]. row_product feature filt m n h)"
proof (cases "rows filt")
  case 0
  then show ?thesis by (simp add: conv_accum_def)
next
  case (Suc k)
  then show ?thesis by (simp only: conv_accum_def conv_h_fold) simp
qed

lemma window_product_rows:
  "window_product feature filt m n = (\<Sum>h\<leftarrow>[0..<rows filt]. row_product feature filt m n h)"
  by (simp add: window_product_def row_product_def)

lemma conv_accum_misses_last_row:
  "0 < rows filt \<Longrightarrow>
   window_product feature filt m n =
     conv_accum feature filt m n + row_product feature filt m n (rows filt - 1)"
  by (cases "rows filt") (simp_all add: window_product_rows conv_accum_eq)

lemma convolve_extents:
  "convolve feature filt stride = Inr r \<Longrightarrow>
   pdf_rows r = int (cols feature) - int (cols filt) + int stride \<and>
   pdf_cols r = int (rows feature) - int (rows filt) + 1 \<and>
   0 \<le> pdf_rows r \<and> 0 \<le> pdf_cols r"
  by (auto simp: convolve_def Let_def split: if_splits)

lemma convolve_negative_extent:
  "convolve \<lparr> rows = 1, cols = 64, channels = 1, depth = CV_32F, data = replicate 64 1 \<rparr>
     \<lparr> rows = 3, cols = 32, channels = 1, depth = CV_32F, data = replicate 96 1 \<rparr> 32
   = Inl NegativeExtent"
  by (simp add: convolve_def)

text \<open>
  The reads of \<open>convolve\<close> stay inside the two buffers: past the assertions, every
  position \<open>(m, n)\<close> the loops visit has \<open>m + filter.rows \<le> feature.rows\<close> and, \<open>n\<close>
  being a multiple of the stride like both column counts,
  \<open>n + filter.cols \<le> feature.cols\<close>.
\<close>

lemma conv_column_fits:
  fixes n fc gc stride :: nat
  assumes "0 < stride" and "stride dvd n" and "stride dvd fc" and "stride dvd gc"
    and "int n < int fc - int gc + int stride"
  shows "n + gc \<le> fc"
proof -
  from assms(2) obtain k where k: "n = stride * k" by (rule dvdE)
  from assms(3) obtain a where a: "fc = stride * a" by (rule dvdE)
  from assms(4) obtain c where c: "gc = stride * c" by (rule dvdE)
  from assms(5) have "n + gc < fc + stride" by linarith
  then have "stride * (k + c) < stride * (a + 1)"
    by (simp add: k a c algebra_simps)
  then have "k + c < a + 1" by (simp only: mult_less_cancel1)
  then have "k + c \<le> a" by simp
  then have "stride * (k + c) \<le> stride * a" by (rule mult_le_mono2)
  then show ?thesis by (simp add: k a c algebra_simps)
qed

lemma conv_reads_in_range:
  assumes "m + rows filt \<le> rows feature" and "n + cols filt \<le> cols feature"
    and "h < rows filt" and "w < cols filt"
  shows "h * cols filt + w < rows filt * cols filt"
    and "(m + h) * cols feature + n + w < rows feature * cols feature"
proof -
  have idx: "\<And>i j r c :: nat. i < r \<Longrightarrow> j < c \<Longrightarrow> i * c + j < r * c"
  proof -
    fix i j r c :: nat
    assume "i < r" and "j < c"
    then have "i * c + j < Suc i * c" by simp
    also have "\<dots> \<le> r * c" using \<open>i < r\<close> by (intro mult_le_mono1) simp
    finally show "i * c + j < r * c" .
  qed
  show "h * cols filt + w < rows filt * cols filt"
    using assms(3,4) by (rule idx)
  have "m + h < rows feature" using assms(1,3) by simp
  moreover have "n + w < cols feature" using assms(2,4) by simp
  ultimately have "(m + h) * cols feature + (n + w) < rows feature * cols feature"
    by (rule idx)
  then show "(m + h) * cols feature + n + w < rows feature * cols feature"
    by (simp add: add.assoc)
qed

text \<open>
  C1. On a 2 x 64 feature map of ones and the 2 x 32 filter with rows of ones and of twos
  (stride 32, both column counts multiples of it, 2 filter rows against 2 feature rows),
  the full inner product at both positions is \<open>32 * 1 + 32 * 2 = 96\<close>, and
  \<open>convolve\<close> stores 32 at both: the products of the last filter row are missing.
\<close>

theorem convolve_omits_last_filter_row:
  "convolve (ones_map 2 64 CV_32F) two_row_filter 32 =
     Inr \<lparr> pdf_rows = 64, pdf_cols = 1, written = [32, 32] \<rparr>
   \<and> window_product (ones_map 2 64 CV_32F) two_row_filter 0 0 = 96
   \<and> window_product (ones_map 2 64 CV_32F) two_row_filter 0 32 = 96"
  by code_simp

text \<open>
  C5. For a 3 x 64 feature map and a 2 x 32 filter (M = 3, N = 2, H = 2, W = 1 in the
  claim's letters, stride 32) the claim gives a response of 2 rows and 2 columns.
  \<open>convolve\<close> creates a matrix of 64 rows and 2 columns and stores 4 values in it.
\<close>

theorem convolve_response_extents_3x64:
  "map_sum id (\<lambda>r. (pdf_rows r, pdf_cols r, length (written r)))
     (convolve (ones_map 3 64 CV_32F) two_row_filter 32) = Inr (64, 2, 4)"
  by code_simp

text \<open>
  C8, as stated, fails: both column counts are multiples of the stride 32, the element
  depths differ, and the first assertion stops the call.
\<close>

theorem convolve_depth_assertion:
  "cols (ones_map 2 64 CV_64F) mod 32 = 0 \<and> cols two_row_filter mod 32 = 0
   \<and> convolve (ones_map 2 64 CV_64F) two_row_filter 32 = Inl PreconditionViolation"
  by code_simp

text \<open>
  C8, amended. For a positive stride, \<open>convolve\<close> ends in the assertion error, and
  gives no response, whenever a column count is not a multiple of the stride, and also
  whenever the element depths differ; when both column counts are multiples of the
  stride and the depths are equal, it does not end in that error.
\<close>

theorem convolve_precondition:
  "0 < stride \<Longrightarrow>
   (convolve feature filt stride = Inl PreconditionViolation) =
   (cols feature mod stride \<noteq> 0 \<or> cols filt mod stride \<noteq> 0 \<or> depth feature \<noteq> depth filt)"
  by (auto simp: convolve_def Let_def)

theorem convolve_precondition_witness:
  "(0::nat) < 32
   \<and> cols (ones_map 2 48 CV_32F) mod 32 \<noteq> 0
   \<and> convolve (ones_map 2 48 CV_32F) two_row_filter 32 = Inl PreconditionViolation
   \<and> cols (ones_map 2 64 CV_32F) mod 32 = 0 \<and> cols two_row_filter mod 32 = 0
   \<and> depth (ones_map 2 64 CV_32F) = depth two_row_filter
   \<and> convolve (ones_map 2 64 CV_32F) two_row_filter 32 \<noteq> Inl PreconditionViolation"
proof -
  have pos: "(0::nat) < 32" by simp
  have c1: "cols (ones_map 2 48 CV_32F) mod 32 \<noteq> 0"
    by (simp add: ones_map_def)
  have c2: "cols (ones_map 2 64 CV_32F) mod 32 = 0" "cols two_row_filter mod 32 = 0"
    "depth (ones_map 2 64 CV_32F) = depth two_row_filter"
    by (simp_all add: ones_map_def two_row_filter_def)
  have a: "convolve (ones_map 2 48 CV_32F) two_row_filter 32 = Inl PreconditionViolation"
    using convolve_precondition [OF pos, of "ones_map 2 48 CV_32F" two_row_filter] c1
    by simp
  have b: "convolve (ones_map 2 64 CV_32F) two_row_filter 32 \<noteq> Inl PreconditionViolation"
    using convolve_precondition [OF pos, of "ones_map 2 64 CV_32F" two_row_filter] c2
    by simp
  from pos c1 a c2 b show ?thesis by (intro conjI)
qed

section \<open>Properties of the extractor and the pyramid loop\<close>

lemma channel_grad_error: "channel_grad im s = Inl e \<Longrightarrow> e = OutOfBounds"
  by (simp add: channel_grad_def Let_def split: if_splits)

lemma pixel_grad_error: "pixel_grad im x y = Inl e \<Longrightarrow> e = OutOfBounds"
  by (auto simp: pixel_grad_def Let_def split: sum.splits if_splits dest: channel_grad_error)

lemma hist_x_loop_error: "hist_x_loop cfg im bw bh y xs hist = Inl e \<Longrightarrow> e = OutOfBounds"
  by (induction xs arbitrary: hist) (auto split: sum.splits dest: pixel_grad_error)

lemma hist_y_loop_error: "hist_y_loop cfg im bw bh ys hist = Inl e \<Longrightarrow> e = OutOfBounds"
  by (induction ys arbitrary: hist) (auto split: sum.splits dest: hist_x_loop_error)

lemma features_error: "features cfg im = Inl e \<Longrightarrow> e = DivisionByZero \<or> e = OutOfBounds"
  by (auto simp: features_def hist_pass_def Let_def split: if_splits sum.splits dest: hist_y_loop_error)

lemma level_features_supported:
  "d \<in> supported \<Longrightarrow> level_features cfg d img = features cfg img"
  by (auto simp: supported_def level_features_def)

lemma level_features_unsupported:
  "d \<notin> supported \<Longrightarrow> level_features cfg d img = Inl UnsupportedFormat"
  by (cases d) (auto simp: supported_def level_features_def)

lemma pyramid_level_unsupported:
  "d \<notin> supported \<Longrightarrow> pyramid_level cfg d img = Inl UnsupportedFormat"
  by (simp add: pyramid_level_def level_features_unsupported)

lemma pyramid_level_supported:
  "d \<in> supported \<Longrightarrow> pyramid_level cfg d img \<noteq> Inl UnsupportedFormat"
  by (auto simp: pyramid_level_def level_features_supported split: sum.splits dest: features_error)

lemma pyramid_loop_unsupported:
  "d \<notin> supported \<Longrightarrow> imgs \<noteq> [] \<Longrightarrow> pyramid_loop cfg d imgs = Inl UnsupportedFormat"
  by (cases imgs) (simp_all add: pyramid_level_unsupported)

lemma pyramid_loop_supported:
  "d \<in> supported \<Longrightarrow> pyramid_loop cfg d imgs \<noteq> Inl UnsupportedFormat"
  by (induction imgs) (auto split: sum.splits dest: pyramid_level_supported)


lemma pyramid_loop_levels:
  "pyramid_loop cfg d imgs = Inr ps \<Longrightarrow>
   length ps = length imgs \<and> (\<forall>n<length imgs. pyramid_level cfg d (imgs ! n) = Inr (ps ! n))"
proof (induction imgs arbitrary: ps)
  case Nil
  then show ?case by simp
next
  case (Cons img imgs)
  from Cons.prems obtain p ps' where
    p: "pyramid_level cfg d img = Inr p" and ps': "pyramid_loop cfg d imgs = Inr ps'"
    and ps: "ps = p # ps'"
    by (auto split: sum.splits)
  from Cons.IH[OF ps'] p ps show ?case
    by (auto simp: nth_Cons split: nat.splits)
qed

lemma pyr_j_loop_length:
  "pyr_j_loop rs scaled interval ns j imgs = Inr imgs' \<Longrightarrow> length imgs' = length imgs"
proof (induction rs scaled interval ns j imgs rule: pyr_j_loop.induct)
  case (1 rs scaled interval ns j imgs)
  show ?case
  proof (cases "j < ns \<and> 0 < interval")
    case True
    with "1.prems" obtain scaled2 where
      d: "pyrDown rs scaled = Inr scaled2" and
      r: "pyr_j_loop rs scaled interval ns (j + interval) (imgs[j := scaled2]) = Inr imgs'"
      by (subst (asm) pyr_j_loop.simps) (auto split: sum.splits)
    from "1.IH"[OF True d r] show ?thesis by simp
  next
    case False
    with "1.prems" show ?thesis
      by (subst (asm) pyr_j_loop.simps) auto
  qed
qed

lemma pyr_i_step_length:
  "pyr_i_step rs im ns interval i imgs = Inr imgs' \<Longrightarrow> length imgs' = length imgs"
  by (auto simp: pyr_i_step_def Let_def split: sum.splits dest: pyr_j_loop_length)

lemma pyr_i_loop_length:
  "pyr_i_loop rs im ns interval todo imgs = Inr imgs' \<Longrightarrow> length imgs' = length imgs"
  by (induction todo arbitrary: imgs) (auto split: sum.splits dest: pyr_i_step_length)

lemma pyraimages_of_length:
  "pyraimages_of rs cfg im = Inr imgs \<Longrightarrow> length imgs = nscales cfg"
  by (auto simp: pyraimages_of_def dest: pyr_i_loop_length)

lemma concat_rows_length:
  "length (concat (map (\<lambda>i. map (g i) [0..<C]) [0..<R])) = R * C"
  by (induction R) simp_all

lemma row_index_bound:
  fixes i j R C :: nat
  assumes "i < R" "j < C"
  shows "i * C + j < R * C"
proof -
  have "i * C + j < Suc i * C" using assms(2) by simp
  also have "\<dots> \<le> R * C" using assms(1) by (intro mult_le_mono1) simp
  finally show ?thesis .
qed

lemma concat_rows_nth:
  "i < R \<Longrightarrow> j < C \<Longrightarrow> concat (map (\<lambda>i. map (g i) [0..<C]) [0..<R]) ! (i * C + j) = g i j"
proof (induction R)
  case 0
  then show ?case by simp
next
  case (Suc R)
  have split: "concat (map (\<lambda>i. map (g i) [0..<C]) [0..<Suc R]) =
      concat (map (\<lambda>i. map (g i) [0..<C]) [0..<R]) @ map (g R) [0..<C]"
    by simp
  show ?case
  proof (cases "i < R")
    case True
    then have "i * C + j < R * C"
      using Suc.prems(2) by (rule row_index_bound)
    then show ?thesis
      unfolding split using Suc.IH[OF True Suc.prems(2)]
      by (simp only: nth_append concat_rows_length if_True)
  next
    case False
    with Suc.prems have "i = R" by simp
    then show ?thesis
      unfolding split using Suc.prems(2)
      by (simp add: nth_append concat_rows_length)
  qed
qed


lemma copyMakeBorder_cell:
  "i < rows src + t + b \<Longrightarrow> j < cols src + l + r \<Longrightarrow>
   cell (copyMakeBorder src t b l r v) i j =
     (if t \<le> i \<and> i < t + rows src \<and> l \<le> j \<and> j < l + cols src
      then cell src (i - t) (j - l) else v)"
  by (simp add: cell_def copyMakeBorder_def concat_rows_nth)

section \<open>The stores of the histogram pass stay inside the histogram\<close>

lemma snap_fold_lt:
  "\<forall>ob\<in>set obs. ob < 9 \<Longrightarrow> snd st < 18 \<Longrightarrow> snd (fold (snap_step dx dy) obs st) < 18"
proof (induction obs arbitrary: st)
  case Nil
  then show ?case by simp
next
  case (Cons ob obs)
  then have "ob < 9" by simp
  with Cons.prems(2) have "snd (snap_step dx dy ob st) < 18"
    by (simp add: snap_step_def Let_def)
  with Cons show ?case by simp
qed

lemma snap_lt: "snap 18 dx dy < 18"
proof -
  have "\<forall>ob\<in>set [0..<18 div 2]. ob < (9::nat)" by simp
  then show ?thesis
    unfolding snap_def by (rule snap_fold_lt) simp
qed

lemma cell_coordinate_bounds:
  fixes p n b :: nat
  assumes "0 < b" and "p + 2 \<le> n * b"
  shows "- 1 \<le> \<lfloor>(real p + 0.5) / real b - 0.5\<rfloor>"
    and "\<lfloor>(real p + 0.5) / real b - 0.5\<rfloor> < int n"
proof -
  define r where "r = (real p + 0.5) / real b"
  have b: "0 < real b" using assms(1) by simp
  have "0 \<le> r" unfolding r_def using b by simp
  then have lo: "real_of_int (- 1) \<le> r - 0.5" by simp
  have "real (p + 2) \<le> real (n * b)" using assms(2) by (simp only: of_nat_le_iff)
  then have "real p + 0.5 < real n * real b" by simp
  then have "r < real n" unfolding r_def using b by (simp add: pos_divide_less_eq)
  then have hi: "r - 0.5 < real_of_int (int n)" by simp
  show "- 1 \<le> \<lfloor>(real p + 0.5) / real b - 0.5\<rfloor>"
    unfolding r_def[symmetric] using lo by (simp only: le_floor_iff)
  show "\<lfloor>(real p + 0.5) / real b - 0.5\<rfloor> < int n"
    unfolding r_def[symmetric] using hi by (simp only: floor_less_iff)
qed

lemma block_index_bounds:
  fixes r c ob bw bh :: int
  assumes "0 \<le> r" and "r < bh" and "0 \<le> c" and "c < bw" and "0 \<le> ob" and "ob < 18"
  shows "0 \<le> (r * bw + c) * 18 + ob \<and> (r * bw + c) * 18 + ob < bw * 18 * bh"
proof -
  have bw: "0 \<le> bw" using assms(3,4) by simp
  define P where "P = r * bw"
  define Q where "Q = bh * bw"
  have "0 \<le> r * bw" using assms(1) bw by (rule mult_nonneg_nonneg)
  then have P0: "0 \<le> P" by (simp add: P_def)
  have "r * bw \<le> (bh - 1) * bw" using assms(2) bw by (intro mult_right_mono) simp_all
  then have P1: "P \<le> Q - bw" by (simp add: P_def Q_def algebra_simps)
  have "0 \<le> (P + c) * 18 + ob" using P0 assms(3,5) by simp
  moreover have "(P + c) * 18 + ob < 18 * Q" using P1 assms(4,6) by simp
  moreover have "bw * 18 * bh = 18 * Q" by (simp add: Q_def)
  ultimately show ?thesis unfolding P_def by simp
qed

lemma hist_stores_in_range:
  assumes no: "norient cfg = 18" and b: "0 < binsize cfg"
    and x: "x + 2 \<le> bw * binsize cfg" and y: "y + 2 \<le> bh * binsize cfg"
    and m: "(True, i, w) \<in> set (hist_stores cfg bw bh x y g)"
  shows "0 \<le> i \<and> i < int bw * 18 * int bh"
proof -
  obtain dx dy v where g: "g = (dx, dy, v)" by (cases g) auto
  define iyp where "iyp = \<lfloor>(real y + 0.5) / real (binsize cfg) - 0.5\<rfloor>"
  define ixp where "ixp = \<lfloor>(real x + 0.5) / real (binsize cfg) - 0.5\<rfloor>"
  define ob where "ob = int (snap 18 dx dy)"
  have iy: "- 1 \<le> iyp" "iyp < int bh"
    unfolding iyp_def using cell_coordinate_bounds[OF b y] by blast+
  have ix: "- 1 \<le> ixp" "ixp < int bw"
    unfolding ixp_def using cell_coordinate_bounds[OF b x] by blast+
  have ob: "0 \<le> ob" "ob < 18"
    unfolding ob_def using snap_lt[of dx dy] by simp_all
  from m have "\<exists>c r. 0 \<le> r \<and> r < int bh \<and> 0 \<le> c \<and> c < int bw \<and> i = (r * int bw + c) * 18 + ob"
    unfolding g hist_stores_def Let_def prod.case no iyp_def[symmetric] ixp_def[symmetric]
      ob_def[symmetric] set_simps insert_iff empty_iff prod.inject
  proof (elim disjE conjE FalseE)
    assume "True = (0 \<le> iyp \<and> 0 \<le> ixp)" and "i = (iyp * int bw + ixp) * int 18 + ob"
    then show ?thesis using iy ix by (intro exI[of _ ixp] exI[of _ iyp]) simp
  next
    assume "True = (0 \<le> iyp \<and> ixp + 1 < int bw)" and "i = (iyp * int bw + ixp + 1) * int 18 + ob"
    then show ?thesis using iy ix by (intro exI[of _ "ixp + 1"] exI[of _ iyp]) simp
  next
    assume "True = (iyp + 1 < int bh \<and> 0 \<le> ixp)" and "i = ((iyp + 1) * int bw + ixp) * int 18 + ob"
    then show ?thesis using iy ix by (intro exI[of _ ixp] exI[of _ "iyp + 1"]) simp
  next
    assume "True = (iyp + 1 < int bh \<and> ixp + 1 < int bw)"
      and "i = ((iyp + 1) * int bw + ixp + 1) * int 18 + ob"
    then show ?thesis using iy ix by (intro exI[of _ "ixp + 1"] exI[of _ "iyp + 1"]) simp
  qed
  then obtain c r where "0 \<le> r" "r < int bh" "0 \<le> c" "c < int bw" "i = (r * int bw + c) * 18 + ob"
    by blast
  with block_index_bounds[of r "int bh" c "int bw" ob] ob show ?thesis by simp
qed

section \<open>Where the loops over the output cells read and write\<close>






lemma feat_write_in_range:
  fixes x y ow oh :: nat
  assumes "y < oh" and "x < ow"
  shows "(y * ow + x) * 32 + 32 \<le> ow * 32 * oh"
proof -
  have "y * ow + x < oh * ow"
  proof -
    have "y * ow + x < Suc y * ow" using assms(2) by simp
    also have "\<dots> \<le> oh * ow" using assms(1) by (intro mult_le_mono1) simp
    finally show ?thesis .
  qed
  then have "y * ow + x + 1 \<le> oh * ow" by simp
  then have "(y * ow + x + 1) * 32 \<le> (oh * ow) * 32" by (rule mult_le_mono1)
  then show ?thesis by (simp add: algebra_simps)
qed


section \<open>The example image\<close>

lemma snap_values: "snap 18 0 0 = 0" "snap 18 2 0 = 0" "snap 18 (-2) 0 = 9" "snap 18 0 2 = 4" "snap 18 0 (-2) = 13"
  by (simp_all add: snap_def snap_step_def uu_def vv_def upt_rec)

lemma blocks_of_spot: "blocks_of hog4 10 = 3"
  by (simp add: blocks_of_def hog4_def c_round_def)

lemma hog4_fields: "binsize hog4 = 4" "norient hog4 = 18" "flen hog4 = 32" "nscales hog4 = 1"
  "type_T hog4 = CV_32F"
  by (simp_all add: hog4_def)

lemma spot_fields: "rows spot = 10" "cols spot = 10" "channels spot = 1" "depth spot = CV_8U"
  "data spot = map (\<lambda>i. if i = 87 then 2 else 0) [0..<100]" by (simp_all add: spot_def)

lemma upt_1_11: "[Suc 0..<11] = [Suc 0, 2, 3, 4, 5, 6,7,8,9,10]" by (simp add: upt_rec)

lemma replicate_numeral_Cons: "replicate (numeral k) x = x # replicate (pred_numeral k) x"
  by (simp add: numeral_eq_Suc)

lemma list_update_sorted: "j < i \<Longrightarrow> xs[i := a, j := b] = xs[j := b, i := a]"
  by (simp add: list_update_swap)

lemma hist_pass_spot: "hist_pass hog4 spot = Inr spot_hist"
  unfolding spot_hist_def
  apply (simp add: hist_pass_def spot_fields blocks_of_spot hog4_fields upt_1_11 pixel_grad_def channel_grad_def sample_offset_def grad_offsets_def in_buffer_def
     hist_pixel_def hist_stores_def guarded_store_def snap_values store_def Let_def list_update_overwrite list_update_sorted)
  apply (simp add: replicate_numeral_Cons)
  done


lemma outsize_of_3: "outsize_of 3 = 1"
  by (simp add: outsize_of_def)

lemma features_spot: "features hog4 spot = Inr spot_feature"
  by (simp add: features_def hist_pass_spot spot_fields blocks_of_spot hog4_fields outsize_of_3 Let_def spot_feature_def)

lemma spot_feature_extents: "rows spot_feature = 1" "cols spot_feature = 32"
  by (simp_all add: spot_feature_def)

lemma interval_of_1: "interval_of (Suc 0) = Suc 0"
proof -
  have "\<lceil>1 / 3 :: real\<rceil> = 1"
    by (rule ceiling_unique) simp_all
  then show ?thesis by (simp add: interval_of_def)
qed

lemma pyraimages_one: "nscales cfg = 1 \<Longrightarrow> pyraimages_of still cfg im = Inr [im]"
  by (simp add: pyraimages_of_def interval_of_1 pyr_i_step_def Let_def still_def
      pyr_j_loop.simps)

lemma interval_of_0: "interval_of 0 = 0"
  by (simp add: interval_of_def)

lemma pyraimages_none: "nscales cfg = 0 \<Longrightarrow> pyraimages_of rs cfg im = Inr []"
  by (simp add: pyraimages_of_def interval_of_0)

lemma spot_hist_values: "spot_hist ! 76 = 25/32" "spot_hist ! 81 = 1/32" "length spot_hist = 162"
  by (simp_all add: spot_hist_def)

lemma norm_pass_spot:
  "norm_pass 18 3 3 spot_hist = [0, 0, 0, 0, 313/512, 137/512, 0, 137/512, 1241/512]"
  by code_simp

lemma accumulated_spot: "accumulated hog4 spot 1 1 9 = 1/2"
  by (simp add: accumulated_def contribution_def bilinear_weight_def spot_fields blocks_of_spot
      hog4_fields upt_1_11 pixel_grad_def channel_grad_def sample_offset_def grad_offsets_def
      in_buffer_def snap_values Let_def)

lemma sqrt_eps: "sqrt (1 / 10000) = 1 / 100"
  by (rule real_sqrt_unique) (simp_all add: power2_eq_square)

lemma norm_scalars_spot:
  "norm_scalars (norm_pass 18 3 3 spot_hist) 1 0 0 = (1 / sqrt (195657 / 320000), 100, 100, 100)"
  by (simp add: norm_pass_spot norm_scalars_def norm_scalar_def eps_def sqrt_eps)

lemma energy_sums_spot:
  "energy_sum (norm_pass 18 3 3 spot_hist) 3 1 1 + eps = 285633 / 80000"
  "energy_sum (norm_pass 18 3 3 spot_hist) 3 0 1 + eps = 140641 / 160000"
  "energy_sum (norm_pass 18 3 3 spot_hist) 3 1 0 + eps = 140641 / 160000"
  "energy_sum (norm_pass 18 3 3 spot_hist) 3 0 0 + eps = 195657 / 320000"
  by (simp_all add: norm_pass_spot energy_sum_def eps_def)

section \<open>Properties of the pyramid builder\<close>

lemma pyramid_padded:
  assumes "snd (pyramid rs cfg im) = Inr pyrafeatures" and "n < nscales cfg"
  shows "\<exists>imgs feature. pyraimages_of rs cfg im = Inr imgs
           \<and> features cfg (imgs ! n) = Inr feature
           \<and> pyrafeatures ! n = copyMakeBorder feature 1 1 (flen cfg) (flen cfg) 1"
proof -
  from assms(1) obtain imgs where
    imgs: "pyraimages_of rs cfg im = Inr imgs" and
    loop: "pyramid_loop cfg (depth im) imgs = Inr pyrafeatures"
    by (auto simp: pyramid_def split: sum.splits)
  from pyramid_loop_levels[OF loop] assms(2)
  have level: "pyramid_level cfg (depth im) (imgs ! n) = Inr (pyrafeatures ! n)"
    by (simp add: pyraimages_of_length[OF imgs])
  have "depth im \<in> supported"
  proof (rule ccontr)
    assume "depth im \<notin> supported"
    from pyramid_level_unsupported[OF this] level show False by simp
  qed
  with level imgs show ?thesis
    by (auto simp: pyramid_level_def level_features_supported split: sum.splits)
qed

lemma padded_cells:
  assumes "i < rows feature + 2" and "j < cols feature + 2 * fl"
  shows "cell (copyMakeBorder feature 1 1 fl fl 1) i j =
           (if 1 \<le> i \<and> i \<le> rows feature \<and> fl \<le> j \<and> j < fl + cols feature
            then cell feature (i - 1) (j - fl) else 1)"
proof -
  have "cell (copyMakeBorder feature 1 1 fl fl 1) i j =
      (if 1 \<le> i \<and> i < 1 + rows feature \<and> fl \<le> j \<and> j < fl + cols feature
       then cell feature (i - 1) (j - fl) else 1)"
    using assms by (intro copyMakeBorder_cell) simp_all
  also have "(i < 1 + rows feature) = (i \<le> rows feature)" by auto
  finally show ?thesis .
qed

lemma pyramid_spot:
  "snd (pyramid still hog4 spot) = Inr [copyMakeBorder spot_feature 1 1 32 32 1]"
proof -
  have im: "pyraimages_of still hog4 spot = Inr [spot]"
    by (rule pyraimages_one) (simp add: hog4_fields)
  show ?thesis
    by (simp add: pyramid_def im pyramid_level_def level_features_def features_spot spot_fields hog4_fields)
qed

text \<open>
  C3, as stated, fails: the level built from the example image by an extractor with
  feature length 32 is a matrix of 3 rows and 96 columns whose top-left border cell
  holds 1, not 0.
\<close>

theorem pyramid_border_holds_one:
  "snd (pyramid still hog4 spot) = Inr [copyMakeBorder spot_feature 1 1 32 32 1]
   \<and> rows (copyMakeBorder spot_feature 1 1 32 32 1) = 3
   \<and> cols (copyMakeBorder spot_feature 1 1 32 32 1) = 96
   \<and> cell (copyMakeBorder spot_feature 1 1 32 32 1) 0 0 = 1"
  by (simp add: pyramid_spot copyMakeBorder_cell spot_feature_extents)
     (simp add: copyMakeBorder_def spot_feature_extents)

text \<open>
  C3, amended. Every level of a pyramid that was built is the extractor's output for the
  level's image inside a border of 1 row above and below and \<open>flen\<close> columns on either
  side; every border cell holds 1, and the cells inside the border are the extractor's
  output, cell for cell.
\<close>

theorem pyramid_level_padding:
  assumes "snd (pyramid rs cfg im) = Inr pyrafeatures" and "n < nscales cfg"
  shows "\<exists>imgs feature. pyraimages_of rs cfg im = Inr imgs
           \<and> features cfg (imgs ! n) = Inr feature
           \<and> rows (pyrafeatures ! n) = rows feature + 2
           \<and> cols (pyrafeatures ! n) = cols feature + 2 * flen cfg
           \<and> (\<forall>i<rows feature + 2. \<forall>j<cols feature + 2 * flen cfg.
                 cell (pyrafeatures ! n) i j =
                   (if 1 \<le> i \<and> i \<le> rows feature \<and> flen cfg \<le> j \<and> j < flen cfg + cols feature
                    then cell feature (i - 1) (j - flen cfg) else 1))"
proof -
  from pyramid_padded[OF assms] obtain imgs feature where
    imgs: "pyraimages_of rs cfg im = Inr imgs" and
    f: "features cfg (imgs ! n) = Inr feature" and
    p: "pyrafeatures ! n = copyMakeBorder feature 1 1 (flen cfg) (flen cfg) 1"
    by blast
  have "rows (pyrafeatures ! n) = rows feature + 2" "cols (pyrafeatures ! n) = cols feature + 2 * flen cfg"
    unfolding p by (simp_all add: copyMakeBorder_def)
  moreover have "\<forall>i<rows feature + 2. \<forall>j<cols feature + 2 * flen cfg.
       cell (pyrafeatures ! n) i j =
         (if 1 \<le> i \<and> i \<le> rows feature \<and> flen cfg \<le> j \<and> j < flen cfg + cols feature
          then cell feature (i - 1) (j - flen cfg) else 1)"
    unfolding p using padded_cells by blast
  ultimately show ?thesis using imgs f by blast
qed


theorem pyramid_level_padding_witness:
  "snd (pyramid still hog4 spot) = Inr [copyMakeBorder spot_feature 1 1 32 32 1]
   \<and> (0::nat) < nscales hog4
   \<and> (\<exists>feature. features hog4 spot = Inr feature
         \<and> rows (copyMakeBorder spot_feature 1 1 32 32 1) = rows feature + 2
         \<and> cols (copyMakeBorder spot_feature 1 1 32 32 1) = cols feature + 64
         \<and> cell (copyMakeBorder spot_feature 1 1 32 32 1) 0 31 = 1
         \<and> cell (copyMakeBorder spot_feature 1 1 32 32 1) 1 36 = cell feature 0 4)"
proof -
  have built: "snd (pyramid still hog4 spot) = Inr [copyMakeBorder spot_feature 1 1 32 32 1]"
    by (rule pyramid_spot)
  have level: "(0::nat) < nscales hog4"
    by (simp add: hog4_fields)
  have im: "pyraimages_of still hog4 spot = Inr [spot]"
    by (simp add: pyraimages_one hog4_fields)
  from pyramid_level_padding [OF built level] obtain feature where
    f: "features hog4 spot = Inr feature"
    and rs: "rows (copyMakeBorder spot_feature 1 1 32 32 1) = rows feature + 2"
    and cs: "cols (copyMakeBorder spot_feature 1 1 32 32 1) = cols feature + 64"
    and cells: "\<forall>i<rows feature + 2. \<forall>j<cols feature + 64.
        cell (copyMakeBorder spot_feature 1 1 32 32 1) i j =
          (if 1 \<le> i \<and> i \<le> rows feature \<and> 32 \<le> j \<and> j < 32 + cols feature
           then cell feature (i - 1) (j - 32) else 1)"
    by (auto simp: im hog4_fields)
  from f have feature: "feature = spot_feature"
    by (simp add: features_spot)
  from cells have "cell (copyMakeBorder spot_feature 1 1 32 32 1) 0 31 = 1"
    and "cell (copyMakeBorder spot_feature 1 1 32 32 1) 1 36 = cell feature 0 4"
    by (simp_all add: feature spot_feature_extents)
  with built level f rs cs show ?thesis by blast
qed

text \<open>
  C7. With three levels on the example image, the recorded scales are three zeros: the
  first is not 1 and the sequence does not decrease.
\<close>

theorem pyramid_scales_are_zero:
  "scales (fst (pyramid still (hog4\<lparr>nscales := 3\<rparr>) spot)) = [0, 0, 0]"
  by (simp add: pyramid_def numeral_3_eq_3)

lemma pyramid_scales: "scales (fst (pyramid rs cfg im)) = replicate (nscales cfg) 0"
  by (simp add: pyramid_def)

lemma pyramid_no_levels: "nscales cfg = 0 \<Longrightarrow> snd (pyramid rs cfg im) = Inr []"
  by (simp add: pyramid_def pyraimages_none)

lemma pyramid_resampler_throws:
  "snd (pyramid failing hog4 spot) = Inl ResamplerFailure"
  by (simp add: pyramid_def pyraimages_of_def hog4_fields interval_of_1 pyr_i_step_def failing_def)

text \<open>
  C9, as stated, fails: with no level to build, an image of signed 8-bit samples, which is
  outside the supported set, gives the empty pyramid and no error.
\<close>

theorem pyramid_no_levels_no_error:
  "depth (tiny CV_8S) \<notin> supported
   \<and> snd (pyramid still (hog4\<lparr>nscales := 0\<rparr>) (tiny CV_8S)) = Inr []"
  by (simp add: supported_def tiny_def pyramid_def pyraimages_of_def interval_of_def)

text \<open>
  C9, amended. With no level to build, the call returns the empty pyramid whatever the
  element type of the source image is. With at least one level to build, and the images
  of the levels returned by the resampler, the call ends in \<open>UnsupportedFormat\<close> when
  the element type of the source image is outside the supported set, and does not end
  in \<open>UnsupportedFormat\<close> when it is inside.
\<close>

theorem pyramid_unsupported_format:
  "(nscales cfg = 0 \<longrightarrow> snd (pyramid rs cfg im) = Inr [])
   \<and> (0 < nscales cfg \<and> pyraimages_of rs cfg im = Inr imgs \<longrightarrow>
        (depth im \<notin> supported \<longrightarrow> snd (pyramid rs cfg im) = Inl UnsupportedFormat)
        \<and> (depth im \<in> supported \<longrightarrow> snd (pyramid rs cfg im) \<noteq> Inl UnsupportedFormat))"
proof (intro conjI impI)
  assume "nscales cfg = 0"
  then show "snd (pyramid rs cfg im) = Inr []"
    by (simp add: pyramid_def pyraimages_none)
next
  assume a: "0 < nscales cfg \<and> pyraimages_of rs cfg im = Inr imgs"
  assume "depth im \<notin> supported"
  moreover from a have "imgs \<noteq> []"
    using pyraimages_of_length[of rs cfg im imgs] by auto
  ultimately show "snd (pyramid rs cfg im) = Inl UnsupportedFormat"
    using a by (simp add: pyramid_def pyramid_loop_unsupported)
next
  assume a: "0 < nscales cfg \<and> pyraimages_of rs cfg im = Inr imgs"
  assume "depth im \<in> supported"
  then show "snd (pyramid rs cfg im) \<noteq> Inl UnsupportedFormat"
    using a by (simp add: pyramid_def pyramid_loop_supported)
qed

theorem pyramid_unsupported_format_witness:
  "nscales (hog4\<lparr>nscales := 0\<rparr>) = 0
   \<and> snd (pyramid still (hog4\<lparr>nscales := 0\<rparr>) (tiny CV_16S)) = Inr []
   \<and> 0 < nscales hog4
   \<and> pyraimages_of still hog4 (tiny CV_8S) = Inr [tiny CV_8S]
   \<and> depth (tiny CV_8S) \<notin> supported
   \<and> snd (pyramid still hog4 (tiny CV_8S)) = Inl UnsupportedFormat
   \<and> pyraimages_of still hog4 spot = Inr [spot]
   \<and> depth spot \<in> supported
   \<and> snd (pyramid still hog4 spot) \<noteq> Inl UnsupportedFormat"
proof -
  have none: "nscales (hog4\<lparr>nscales := 0\<rparr>) = 0" by simp
  have level: "0 < nscales hog4" by (simp add: hog4_fields)
  have i1: "pyraimages_of still hog4 (tiny CV_8S) = Inr [tiny CV_8S]"
    and i2: "pyraimages_of still hog4 spot = Inr [spot]"
    by (simp_all add: pyraimages_one hog4_fields)
  have d1: "depth (tiny CV_8S) \<notin> supported" by (simp add: tiny_def supported_def)
  have d2: "depth spot \<in> supported" by (simp add: spot_fields supported_def)
  from pyramid_unsupported_format [of "hog4\<lparr>nscales := 0\<rparr>" still "tiny CV_16S"] none
  have e0: "snd (pyramid still (hog4\<lparr>nscales := 0\<rparr>) (tiny CV_16S)) = Inr []" by blast
  from pyramid_unsupported_format [of hog4 still "tiny CV_8S" "[tiny CV_8S]"] level i1 d1
  have e1: "snd (pyramid still hog4 (tiny CV_8S)) = Inl UnsupportedFormat" by blast
  from pyramid_unsupported_format [of hog4 still spot "[spot]"] level i2 d2
  have e2: "snd (pyramid still hog4 spot) \<noteq> Inl UnsupportedFormat" by blast
  from none e0 level i1 d1 e1 i2 d2 e2 show ?thesis by (intro conjI)
qed

section \<open>When the gradient reads stay inside the image\<close>

lemma channel_grad_returns:
  assumes "0 < cols im" and "int (cols im) \<le> s" and "s + int (cols im) < int (length (data im))"
  shows "\<exists>g. channel_grad im s = Inr g"
proof -
  have "list_all (in_buffer im) (grad_offsets im s)"
    using assms by (simp add: grad_offsets_def in_buffer_def)
  then show ?thesis by (simp add: channel_grad_def Let_def)
qed

lemma clamped_offset_bounds:
  fixes x y :: nat
  assumes "3 \<le> rows im" and "3 \<le> cols im" and "1 \<le> x" and "1 \<le> y"
  shows "int (cols im) \<le> sample_offset im x y"
    and "sample_offset im x y + int (cols im) < int (rows im) * int (cols im)"
proof -
  define C where "C = int (cols im)"
  define R where "R = int (rows im)"
  define cx where "cx = min (int x) (C - 2)"
  define cy where "cy = min (int y) (R - 2)"
  have C: "3 \<le> C" and R: "3 \<le> R" using assms(1,2) by (simp_all add: C_def R_def)
  have cx: "1 \<le> cx" "cx \<le> C - 2" using assms(3) C by (simp_all add: cx_def)
  have cy: "1 \<le> cy" "cy \<le> R - 2" using assms(4) R by (simp_all add: cy_def)
  define P where "P = cy * C"
  have "1 * C \<le> cy * C" using cy(1) C by (intro mult_right_mono) simp_all
  then have P1: "C \<le> P" by (simp add: P_def)
  have "cy * C \<le> (R - 2) * C" using cy(2) C by (intro mult_right_mono) simp_all
  then have P2: "P \<le> R * C - 2 * C" by (simp add: P_def algebra_simps)
  have s: "sample_offset im x y = cx + P"
    by (simp add: sample_offset_def cx_def cy_def P_def C_def R_def)
  show "int (cols im) \<le> sample_offset im x y"
    unfolding s C_def[symmetric] using cx(1) P1 by linarith
  define RC where "RC = R * C"
  from P2 have "P \<le> RC - 2 * C" by (simp add: RC_def)
  then have "cx + P + C < RC" using cx(2) by linarith
  then show "sample_offset im x y + int (cols im) < int (rows im) * int (cols im)"
    unfolding s C_def[symmetric] R_def[symmetric] RC_def .
qed

lemma pixel_grad_returns:
  assumes "3 \<le> rows im" and "3 \<le> cols im" and "1 \<le> x" and "1 \<le> y"
    and "length (data im) = rows im * cols im * channels im" and "1 \<le> channels im"
  shows "\<exists>g. pixel_grad im x y = Inr g"
proof -
  define s where "s = sample_offset im x y"
  define plane where "plane = int (cols im) * int (rows im)"
  have c: "0 < cols im" using assms(2) by simp
  have lo: "int (cols im) \<le> s" and hi: "s + int (cols im) < plane"
    using clamped_offset_bounds[OF assms(1-4)] by (simp_all add: s_def plane_def mult.commute)
  have p0: "0 \<le> plane" by (simp add: plane_def)
  have len: "int (length (data im)) = plane * int (channels im)"
    by (simp add: assms(5) plane_def mult.commute)
  have "plane * 1 \<le> plane * int (channels im)"
    using p0 assms(6) by (intro mult_left_mono) simp_all
  then have l1: "plane \<le> int (length (data im))" by (simp add: len)
  from channel_grad_returns[OF c lo] hi l1
  obtain b where b: "channel_grad im s = Inr b" by fastforce
  show ?thesis
  proof (cases "channels im = 3")
    case False
    with b have "pixel_grad im x y = Inr b"
      by (simp add: pixel_grad_def Let_def s_def[symmetric])
    then show ?thesis by blast
  next
    case True
    then have l3: "int (length (data im)) = 3 * plane" by (simp add: len)
    have "\<exists>g. channel_grad im (s + plane) = Inr g"
      using lo hi p0 l3 by (intro channel_grad_returns[OF c]) simp_all
    then obtain g where g: "channel_grad im (s + plane) = Inr g" by blast
    have "\<exists>r. channel_grad im (s + plane + plane) = Inr r"
      using lo hi p0 l3 by (intro channel_grad_returns[OF c]) simp_all
    then obtain r where r: "channel_grad im (s + plane + plane) = Inr r" by blast
    from b g r True have "pixel_grad im x y = Inr (stronger (stronger b g) r)"
      by (simp add: pixel_grad_def Let_def s_def[symmetric] plane_def[symmetric])
    then show ?thesis by blast
  qed
qed

lemma hist_x_loop_returns:
  assumes "3 \<le> rows im" and "3 \<le> cols im" and "1 \<le> y"
    and "length (data im) = rows im * cols im * channels im" and "1 \<le> channels im"
  shows "\<forall>x\<in>set xs. 1 \<le> x \<Longrightarrow> \<exists>H. hist_x_loop cfg im bw bh y xs hist = Inr H"
proof (induction xs arbitrary: hist)
  case Nil
  show ?case by simp
next
  case (Cons x xs)
  then have "1 \<le> x" by simp
  from pixel_grad_returns[OF assms(1,2) this assms(3,4,5)]
  obtain g where g: "pixel_grad im x y = Inr g" by blast
  from Cons.IH[of "hist_pixel cfg bw bh x y g hist"] Cons.prems g
  show ?case by simp
qed

lemma hist_y_loop_returns:
  assumes "3 \<le> rows im" and "3 \<le> cols im"
    and "length (data im) = rows im * cols im * channels im" and "1 \<le> channels im"
  shows "\<forall>y\<in>set ys. 1 \<le> y \<Longrightarrow> \<exists>H. hist_y_loop cfg im bw bh ys hist = Inr H"
proof (induction ys arbitrary: hist)
  case Nil
  show ?case by simp
next
  case (Cons y ys)
  then have y: "1 \<le> y" by simp
  have xs: "\<forall>x\<in>set [1..<bw * binsize cfg - 1]. 1 \<le> x" by simp
  from hist_x_loop_returns[OF assms(1,2) y assms(3,4) xs, of cfg bw bh hist]
  obtain hist' where h: "hist_x_loop cfg im bw bh y [1..<bw * binsize cfg - 1] hist = Inr hist'"
    by blast
  from Cons.IH[of hist'] Cons.prems h show ?case by simp
qed

text \<open>
  On an image of at least 3 rows and 3 columns whose buffer holds all its samples, the
  extractor with a positive cell size returns a feature map.
\<close>

lemma features_returns:
  assumes "3 \<le> rows im" and "3 \<le> cols im"
    and "length (data im) = rows im * cols im * channels im" and "1 \<le> channels im"
    and "0 < binsize cfg"
  shows "\<exists>f. features cfg im = Inr f"
proof -
  have ys: "\<forall>y\<in>set [1..<blocks_of cfg (rows im) * binsize cfg - 1]. 1 \<le> y" by simp
  from hist_y_loop_returns[OF assms(1-4) ys]
  obtain H where "hist_pass cfg im = Inr H"
    unfolding hist_pass_def Let_def by blast
  then show ?thesis using assms(5) by (simp add: features_def Let_def)
qed

section \<open>The claims about the extractor\<close>

text \<open>
  C2. On the example image (cells of 4 pixels), the pixels (8,8), (9,8), (8,9) and (9,9)
  have orientation bin 9 and lie nearest to block (1,1); their weighted magnitudes for
  that block are 9/32, 3/32, 3/32 and 1/32, which sum to 1/2. The histogram pass stores
  each one over the last, so the entry of block (1,1) and bin 9 ends as 1/32.
\<close>

theorem hist_pass_overwrites:
  "hist_pass hog4 spot = Inr spot_hist
   \<and> spot_hist ! ((1 * 3 + 1) * 18 + 9) = 1 / 32
   \<and> contribution hog4 spot 1 1 9 8 8 = 9 / 32
   \<and> contribution hog4 spot 1 1 9 9 9 = 1 / 32
   \<and> accumulated hog4 spot 1 1 9 = 1 / 2"
proof -
  have c: "contribution hog4 spot 1 1 9 8 8 = 9 / 32" "contribution hog4 spot 1 1 9 9 9 = 1 / 32"
    by (simp_all add: contribution_def bilinear_weight_def spot_fields hog4_fields pixel_grad_def
        channel_grad_def sample_offset_def grad_offsets_def in_buffer_def snap_values Let_def)
  have e: "spot_hist ! ((1 * 3 + 1) * 18 + 9) = 1 / 32"
    by (simp add: spot_hist_values)
  from hist_pass_spot e c accumulated_spot show ?thesis
    by (intro conjI)
qed

text \<open>
  C4. On the example image the block-energy grid has 3 blocks per row and the output has
  one cell. With row stride 3 the four neighbourhoods of that cell sum (with eps) to
  285633/80000, 140641/160000, 140641/160000 and 195657/320000. The extractor steps
  through the grid with the output width 1, and its four scalars are those of the sums
  195657/320000, 1/10000, 1/10000 and 1/10000.
\<close>

theorem norm_scalars_use_output_width:
  "hist_pass hog4 spot = Inr spot_hist
   \<and> outsize_of (blocks_of hog4 (cols spot)) = 1
   \<and> norm_scalars (norm_pass 18 3 3 spot_hist) 1 0 0 = (1 / sqrt (195657 / 320000), 100, 100, 100)
   \<and> energy_sum (norm_pass 18 3 3 spot_hist) 3 1 1 + eps = 285633 / 80000
   \<and> energy_sum (norm_pass 18 3 3 spot_hist) 3 0 1 + eps = 140641 / 160000
   \<and> energy_sum (norm_pass 18 3 3 spot_hist) 3 1 0 + eps = 140641 / 160000
   \<and> energy_sum (norm_pass 18 3 3 spot_hist) 3 0 0 + eps = 195657 / 320000"
proof -
  have w: "outsize_of (blocks_of hog4 (cols spot)) = 1"
    by (simp add: spot_fields blocks_of_spot outsize_of_3)
  from hist_pass_spot w norm_scalars_spot energy_sums_spot show ?thesis
    by (intro conjI)
qed

text \<open>
  C10. An extractor with cells of 4 pixels on a 2 x 2 image has 1 block each way and
  visits the pixels 1 and 2 of a visible area of 4 x 4. At the pixel (1,1) the clamped
  coordinates are \<open>min(1, 0) = 0\<close> both, the sample address is \<open>src + 0\<close>, and the
  reads at \<open>s - imsize.width\<close> and \<open>s - 1\<close> are at the offsets -2 and -1, before the
  buffer.
\<close>

theorem gradient_reads_before_buffer:
  "blocks_of hog4 (cols (tiny CV_8U)) * binsize hog4 = 4
   \<and> sample_offset (tiny CV_8U) 1 1 = 0
   \<and> grad_offsets (tiny CV_8U) 0 = [2, - 2, 1, - 1]
   \<and> \<not> in_buffer (tiny CV_8U) (- 2)
   \<and> \<not> in_buffer (tiny CV_8U) (- 1)
   \<and> features hog4 (tiny CV_8U) = Inl OutOfBounds"
proof -
  have t: "rows (tiny CV_8U) = 2" "cols (tiny CV_8U) = 2" "channels (tiny CV_8U) = 1"
    "data (tiny CV_8U) = [0, 0, 0, 0]"
    by (simp_all add: tiny_def)
  have b: "blocks_of hog4 2 = 1"
    by (simp add: blocks_of_def hog4_fields c_round_def)
  have s: "sample_offset (tiny CV_8U) (Suc 0) (Suc 0) = 0"
    by (simp add: sample_offset_def t)
  have g: "pixel_grad (tiny CV_8U) (Suc 0) (Suc 0) = Inl OutOfBounds"
    by (simp add: pixel_grad_def s channel_grad_def grad_offsets_def in_buffer_def t)
  have u: "[Suc 0..<3] = [Suc 0, 2]" by (simp add: upt_rec)
  have "hist_pass hog4 (tiny CV_8U) = Inl OutOfBounds"
    by (simp add: hist_pass_def t b hog4_fields u g)
  then have "features hog4 (tiny CV_8U) = Inl OutOfBounds"
    by (simp add: features_def hog4_fields Let_def)
  then show ?thesis
    using s by (simp add: t b hog4_fields grad_offsets_def in_buffer_def)
qed

section \<open>Properties of the floating-point operations\<close>

lemma rounding_mono: "rounding r \<Longrightarrow> a \<le> b \<Longrightarrow> fle (r a) (r b)"
  by (simp add: rounding_def)

lemma rounding_int: "rounding r \<Longrightarrow> \<bar>k\<bar> \<le> 16777216 \<Longrightarrow> r (real_of_int k) = Fin (real_of_int k)"
  by (simp add: rounding_def)


lemma rounding_0: "rounding r \<Longrightarrow> r 0 = Fin 0"
  using rounding_int[of r 0] by simp


lemma rounding_4: "rounding r \<Longrightarrow> r 4 = Fin 4"
  using rounding_int[of r 4] by simp



lemma rounding_nonneg: "rounding r \<Longrightarrow> 0 \<le> a \<Longrightarrow> fle (Fin 0) (r a)"
  using rounding_mono[of r 0 a] by (simp add: rounding_0)






lemma nn_simps [simp]: "nn NaN" "nn PInf" "\<not> nn NInf" "nn (Fin a) = (0 \<le> a)"
  by (simp_all add: nn_def)








section \<open>Invariants of the histogram pass in the arithmetic of \<open>T\<close>\<close>














section \<open>Block energies and feature assembly in the arithmetic of \<open>T\<close>\<close>






subsection \<open>Truncation and the half sum\<close>


lemma bounded_by_NaN [simp]: "bounded_by b NaN"
  by (simp add: bounded_by_def)



lemma fadd_NaN_right [simp]: "fadd r x NaN = NaN"
  by (cases x) simp_all

lemma fmul_NaN_right [simp]: "fmul r x NaN = NaN"
  by (cases x) simp_all

lemma half_sum_NaN:
  "h1 = NaN \<or> h2 = NaN \<or> h3 = NaN \<or> h4 = NaN \<Longrightarrow> half_sum_T ar cfg h1 h2 h3 h4 = NaN"
  by (auto simp: half_sum_T_def Let_def)





section \<open>The bound on the entries of a feature map\<close>













section \<open>The entries of one output cell in the arithmetic of \<open>T\<close>\<close>

lemma sensitive_step_T_feat:
  "feat_T (sensitive_step_T ar cfg hist (n1, n2, n3, n4) src ob st) =
     (feat_T st)[dst_T st := half_sum_T ar cfg
        (fmin (fmul (rT ar cfg) (hist ! (src + ob)) n1) (trunc_T ar cfg))
        (fmin (fmul (rT ar cfg) (hist ! (src + ob)) n2) (trunc_T ar cfg))
        (fmin (fmul (rT ar cfg) (hist ! (src + ob)) n3) (trunc_T ar cfg))
        (fmin (fmul (rT ar cfg) (hist ! (src + ob)) n4) (trunc_T ar cfg))]"
  by (simp add: sensitive_step_T_def Let_def)

lemma sensitive_step_T_dst: "dst_T (sensitive_step_T ar cfg hist ns src ob st) = dst_T st + 1"
  by (cases ns) (simp add: sensitive_step_T_def Let_def)

lemma insensitive_step_T_dst: "dst_T (insensitive_step_T ar cfg hist ns src ob st) = dst_T st + 1"
  by (cases ns) (simp add: insensitive_step_T_def Let_def)

lemma insensitive_step_T_feat:
  "\<exists>v. feat_T (insensitive_step_T ar cfg hist ns src ob st) = (feat_T st)[dst_T st := v]"
  by (cases ns) (auto simp: insensitive_step_T_def Let_def)

lemma sensitive_fold_T_dst:
  "dst_T (fold (sensitive_step_T ar cfg hist ns src) [0..<n] st) = dst_T st + n
   \<and> length (feat_T (fold (sensitive_step_T ar cfg hist ns src) [0..<n] st)) = length (feat_T st)"
proof (induction n)
  case 0
  show ?case by simp
next
  case (Suc n)
  obtain n1 n2 n3 n4 where ns: "ns = (n1, n2, n3, n4)" by (cases ns) auto
  from Suc show ?case
    by (simp add: sensitive_step_T_dst) (simp add: ns sensitive_step_T_feat)
qed

lemma insensitive_fold_T_dst:
  "dst_T (fold (insensitive_step_T ar cfg hist ns src) [0..<n] st) = dst_T st + n
   \<and> length (feat_T (fold (insensitive_step_T ar cfg hist ns src) [0..<n] st)) = length (feat_T st)"
proof (induction n)
  case 0
  show ?case by simp
next
  case (Suc n)
  let ?st = "fold (insensitive_step_T ar cfg hist ns src) [0..<n] st"
  obtain v where v: "feat_T (insensitive_step_T ar cfg hist ns src n ?st) = (feat_T ?st)[dst_T ?st := v]"
    using insensitive_step_T_feat by blast
  from Suc show ?case
    by (simp add: insensitive_step_T_dst v)
qed

lemma sensitive_fold_T_nth:
  assumes "k < n" and "dst_T st + k < length (feat_T st)"
  shows "feat_T (fold (sensitive_step_T ar cfg hist (n1, n2, n3, n4) src) [0..<n] st) ! (dst_T st + k) =
     half_sum_T ar cfg
        (fmin (fmul (rT ar cfg) (hist ! (src + k)) n1) (trunc_T ar cfg))
        (fmin (fmul (rT ar cfg) (hist ! (src + k)) n2) (trunc_T ar cfg))
        (fmin (fmul (rT ar cfg) (hist ! (src + k)) n3) (trunc_T ar cfg))
        (fmin (fmul (rT ar cfg) (hist ! (src + k)) n4) (trunc_T ar cfg))"
  using assms(1)
proof (induction n)
  case 0
  then show ?case by simp
next
  case (Suc n)
  let ?st = "fold (sensitive_step_T ar cfg hist (n1, n2, n3, n4) src) [0..<n] st"
  have d: "dst_T ?st = dst_T st + n" and l: "length (feat_T ?st) = length (feat_T st)"
    using sensitive_fold_T_dst[of ar cfg hist "(n1, n2, n3, n4)" src n st] by simp_all
  have step: "fold (sensitive_step_T ar cfg hist (n1, n2, n3, n4) src) [0..<Suc n] st =
      sensitive_step_T ar cfg hist (n1, n2, n3, n4) src n ?st"
    by simp
  show ?case
  proof (cases "k = n")
    case True
    then show ?thesis
      unfolding step sensitive_step_T_feat d using assms(2) l by simp
  next
    case False
    with Suc.prems have "k < n" by simp
    from Suc.IH[OF this] False show ?thesis
      unfolding step sensitive_step_T_feat d by simp
  qed
qed

lemma insensitive_fold_T_below:
  assumes "i < dst_T st"
  shows "feat_T (fold (insensitive_step_T ar cfg hist ns src) [0..<n] st) ! i = feat_T st ! i"
proof (induction n)
  case 0
  show ?case by simp
next
  case (Suc n)
  let ?st = "fold (insensitive_step_T ar cfg hist ns src) [0..<n] st"
  have d: "dst_T ?st = dst_T st + n"
    using insensitive_fold_T_dst[of ar cfg hist ns src n st] by simp
  obtain v where v: "feat_T (insensitive_step_T ar cfg hist ns src n ?st) = (feat_T ?st)[dst_T ?st := v]"
    using insensitive_step_T_feat by blast
  have "i \<noteq> dst_T ?st" using assms d by simp
  with Suc show ?case
    by (simp add: v)
qed

lemma texture_step_T_below:
  assumes "i < dst_T st"
  shows "texture_step_T ar cfg st ! i = feat_T st ! i"
  using assms by (simp add: texture_step_T_def)

text \<open>
  The contrast-sensitive entry \<open>k\<close> of the output cell \<open>(y, x)\<close>, as the extractor leaves
  it in the buffer.
\<close>

lemma feat_cell_T_sensitive_nth:
  assumes "k < norient cfg" and "(y * ow + x) * flen cfg + k < length fm"
    and "norm_scalars_T ar cfg nrm ow y x = (n1, n2, n3, n4)"
    and "src = ((y + 1) * bw + (x + 1)) * norient cfg"
  shows "feat_cell_T ar cfg hist nrm bw ow y x fm ! ((y * ow + x) * flen cfg + k) =
     half_sum_T ar cfg
        (fmin (fmul (rT ar cfg) (hist ! (src + k)) n1) (trunc_T ar cfg))
        (fmin (fmul (rT ar cfg) (hist ! (src + k)) n2) (trunc_T ar cfg))
        (fmin (fmul (rT ar cfg) (hist ! (src + k)) n3) (trunc_T ar cfg))
        (fmin (fmul (rT ar cfg) (hist ! (src + k)) n4) (trunc_T ar cfg))"
proof -
  define st0 where "st0 = \<lparr> feat_T = fm, dst_T = (y * ow + x) * flen cfg,
     t1_T = Fin 0, t2_T = Fin 0, t3_T = Fin 0, t4_T = Fin 0 \<rparr>"
  define st1 where "st1 = fold (sensitive_step_T ar cfg hist (n1, n2, n3, n4) src) [0..<norient cfg] st0"
  define st2 where "st2 =
     fold (insensitive_step_T ar cfg hist (n1, n2, n3, n4) src) [0..<norient cfg div 2] st1"
  have cell: "feat_cell_T ar cfg hist nrm bw ow y x fm = texture_step_T ar cfg st2"
    unfolding feat_cell_T_def Let_def assms(3) assms(4)[symmetric] st2_def st1_def st0_def ..
  have d0: "dst_T st0 = (y * ow + x) * flen cfg" and f0: "feat_T st0 = fm"
    by (simp_all add: st0_def)
  have d1: "dst_T st1 = (y * ow + x) * flen cfg + norient cfg"
    unfolding st1_def using sensitive_fold_T_dst[of ar cfg hist "(n1, n2, n3, n4)" src "norient cfg" st0]
    by (simp add: d0)
  have d2: "dst_T st2 = dst_T st1 + norient cfg div 2"
    unfolding st2_def
    using insensitive_fold_T_dst[of ar cfg hist "(n1, n2, n3, n4)" src "norient cfg div 2" st1]
    by simp
  let ?i = "(y * ow + x) * flen cfg + k"
  have i1: "?i < dst_T st1" using assms(1) by (simp add: d1)
  then have i2: "?i < dst_T st2" by (simp add: d2)
  have "texture_step_T ar cfg st2 ! ?i = feat_T st2 ! ?i"
    using i2 by (rule texture_step_T_below)
  also have "\<dots> = feat_T st1 ! ?i"
    unfolding st2_def using i1 by (rule insensitive_fold_T_below)
  also have "\<dots> = feat_T st1 ! (dst_T st0 + k)"
    by (simp add: d0)
  also have "\<dots> = half_sum_T ar cfg
        (fmin (fmul (rT ar cfg) (hist ! (src + k)) n1) (trunc_T ar cfg))
        (fmin (fmul (rT ar cfg) (hist ! (src + k)) n2) (trunc_T ar cfg))
        (fmin (fmul (rT ar cfg) (hist ! (src + k)) n3) (trunc_T ar cfg))
        (fmin (fmul (rT ar cfg) (hist ! (src + k)) n4) (trunc_T ar cfg))"
    unfolding st1_def using assms(1,2) by (intro sensitive_fold_T_nth) (simp_all add: d0 f0)
  finally show ?thesis by (simp only: cell)
qed

section \<open>Rounding to the nearest integer\<close>

lemma rne_cases: "rne x = \<lfloor>x\<rfloor> \<or> rne x = \<lfloor>x\<rfloor> + 1"
  by (simp add: rne_def)

lemma rne_of_int [simp]: "rne (real_of_int n) = n"
  by (simp add: rne_def)

lemma rne_lower: "\<lfloor>x\<rfloor> \<le> rne x"
  using rne_cases[of x] by auto

lemma rne_upper: "rne x \<le> \<lfloor>x\<rfloor> + 1"
  using rne_cases[of x] by auto

lemma rne_mono: "x \<le> y \<Longrightarrow> rne x \<le> rne y"
proof -
  assume le: "x \<le> y"
  then have f: "\<lfloor>x\<rfloor> \<le> \<lfloor>y\<rfloor>" by (rule floor_mono)
  show ?thesis
  proof (cases "\<lfloor>x\<rfloor> = \<lfloor>y\<rfloor>")
    case True
    then have "x - real_of_int \<lfloor>x\<rfloor> \<le> y - real_of_int \<lfloor>y\<rfloor>" using le by simp
    then show ?thesis unfolding rne_def True by auto
  next
    case False
    with f have "\<lfloor>x\<rfloor> + 1 \<le> \<lfloor>y\<rfloor>" by simp
    with rne_upper[of x] rne_lower[of y] show ?thesis by linarith
  qed
qed

lemma rne_0 [simp]: "rne 0 = 0"
  by (simp add: rne_def)

lemma rne_power [simp]: "rne (2 ^ n) = 2 ^ n"
  using rne_of_int[of "2 ^ n"] by simp

lemma rne_numeral [simp]: "rne (numeral k) = numeral k"
  using rne_of_int[of "numeral k"] by simp

lemma rne_1 [simp]: "rne 1 = 1"
  using rne_of_int[of 1] by simp

lemma rne_nonneg: "0 \<le> x \<Longrightarrow> 0 \<le> rne x"
  using rne_mono[of 0 x] by simp

lemma rne_minus: "rne (- x) = - rne x"
proof (cases "x = real_of_int \<lfloor>x\<rfloor>")
  case True
  then obtain n where "x = real_of_int n" ..
  then have "- x = real_of_int (- n)" by simp
  then show ?thesis unfolding \<open>x = real_of_int n\<close> by (simp only: rne_of_int)
next
  case False
  define f where "f = \<lfloor>x\<rfloor>"
  define d where "d = x - real_of_int f"
  have d: "0 < d" "d < 1" using False unfolding d_def f_def by linarith+
  have fl: "\<lfloor>- x\<rfloor> = - f - 1"
    unfolding f_def using False by (simp add: floor_minus ceiling_altdef)
  have dm: "- x - real_of_int (- f - 1) = 1 - d" by (simp add: d_def)
  have p: "even (- f - 1) = odd f" by simp
  show ?thesis
    unfolding rne_def fl dm f_def[symmetric] d_def[symmetric] p using d by auto
qed

section \<open>Powers of two\<close>

lemma pow2_pos [simp]: "0 < pow2 k"
  by (simp add: pow2_def)

lemma pow2_nonneg [simp]: "0 \<le> pow2 k"
  by (simp add: pow2_def)

lemma pow2_ne0 [simp]: "pow2 k \<noteq> 0"
  by (simp add: pow2_def)

lemma pow2_not_le0 [simp]: "\<not> pow2 k \<le> 0"
  by (simp add: pow2_def not_le)

lemma pow2_add: "pow2 (a + b) = pow2 a * pow2 b"
  by (simp add: pow2_def powr_add)

lemma pow2_0 [simp]: "pow2 0 = 1"
  by (simp add: pow2_def)

lemma pow2_nat: "pow2 (int n) = 2 ^ n"
  by (simp add: pow2_def powr_realpow)

lemma pow2_neg_nat: "pow2 (- int n) = 1 / 2 ^ n"
  by (simp add: pow2_def powr_minus powr_realpow inverse_eq_divide)

lemma pow2_mono: "a \<le> b \<Longrightarrow> pow2 a \<le> pow2 b"
  by (simp add: pow2_def)

lemma pow2_less: "a < b \<Longrightarrow> pow2 a < pow2 b"
  by (simp add: pow2_def)

lemma pow2_diff: "pow2 (a - b) = pow2 a / pow2 b"
  by (simp add: pow2_def powr_diff)

lemma pow2_int_nonneg: "0 \<le> k \<Longrightarrow> pow2 k = real_of_int (2 ^ nat k)"
  using pow2_nat[of "nat k"] by simp

section \<open>Binades\<close>

lemma floor_log2_bounds:
  assumes "0 < x"
  shows "pow2 \<lfloor>log 2 x\<rfloor> \<le> x" and "x < pow2 (\<lfloor>log 2 x\<rfloor> + 1)"
  using floor_log_eq_powr_iff[of x 2 "\<lfloor>log 2 x\<rfloor>"] assms
  by (simp_all add: pow2_def)

lemma binade_upper:
  assumes "0 < x"
  shows "x < pow2 (binade emin x + 1)"
proof -
  have "x < pow2 (\<lfloor>log 2 x\<rfloor> + 1)" using assms by (rule floor_log2_bounds)
  also have "\<dots> \<le> pow2 (binade emin x + 1)"
    using assms by (intro pow2_mono) (simp add: binade_def)
  finally show ?thesis .
qed

lemma binade_lower:
  assumes "0 < x"
  shows "pow2 (binade emin x) \<le> x \<or> binade emin x = emin"
proof (cases "emin \<le> \<lfloor>log 2 x\<rfloor>")
  case True
  then have "binade emin x = \<lfloor>log 2 x\<rfloor>" using assms by (simp add: binade_def)
  then show ?thesis using floor_log2_bounds(1)[OF assms] by simp
next
  case False
  then show ?thesis using assms by (simp add: binade_def)
qed

lemma binade_ge: "emin \<le> binade emin x"
  by (simp add: binade_def)

lemma binade_mono:
  assumes "0 < a" and "a \<le> b"
  shows "binade emin a \<le> binade emin b"
proof -
  have "log 2 a \<le> log 2 b" using assms by simp
  then have "\<lfloor>log 2 a\<rfloor> \<le> \<lfloor>log 2 b\<rfloor>" by (rule floor_mono)
  then show ?thesis using assms by (simp add: binade_def)
qed

lemma binade_minus [simp]: "binade emin (- x) = binade emin x"
  by (simp add: binade_def)

lemma binade_eqI:
  assumes "0 < x" and "pow2 e \<le> x" and "x < pow2 (e + 1)" and "emin \<le> e"
  shows "binade emin x = e"
proof -
  have "\<lfloor>log 2 x\<rfloor> = e"
    using floor_log_eq_powr_iff[of x 2 e] assms by (simp add: pow2_def)
  then show ?thesis using assms by (simp add: binade_def)
qed

lemma binade_subnormal:
  assumes "0 < x" and "x < pow2 emin"
  shows "binade emin x = emin"
proof -
  have "\<lfloor>log 2 x\<rfloor> < emin"
  proof (rule ccontr)
    assume "\<not> \<lfloor>log 2 x\<rfloor> < emin"
    then have "pow2 emin \<le> pow2 \<lfloor>log 2 x\<rfloor>" by (intro pow2_mono) simp
    with floor_log2_bounds(1)[OF assms(1)] assms(2) show False by simp
  qed
  then show ?thesis using assms by (simp add: binade_def)
qed

section \<open>The rounded value\<close>

lemma rounded_minus [simp]: "rounded p emin (- x) = - rounded p emin x"
  by (simp add: rounded_def rne_minus)

lemma rounded_upper:
  assumes "0 < x"
  shows "rounded p emin x \<le> pow2 (binade emin x + 1)"
proof -
  define e where "e = binade emin x"
  define u where "u = pow2 (e - int p + 1)"
  have u: "0 < u" by (simp add: u_def)
  have "x / u \<le> pow2 (e + 1) / u"
    using binade_upper[OF assms, of emin] u by (simp add: e_def divide_right_mono)
  also have "pow2 (e + 1) / u = pow2 (int p)"
    unfolding u_def pow2_diff[symmetric] by simp
  also have "\<dots> = real_of_int (2 ^ p)" by (simp add: pow2_nat)
  finally have "rne (x / u) \<le> rne (real_of_int (2 ^ p))" by (rule rne_mono)
  then have i: "rne (x / u) \<le> (2::int) ^ p" by simp
  have "real_of_int (rne (x / u)) \<le> real_of_int (2 ^ p)"
    using i by (simp only: of_int_le_iff)
  then have "u * real_of_int (rne (x / u)) \<le> u * real_of_int (2 ^ p)"
    using u by (intro mult_left_mono) simp_all
  also have "u * real_of_int (2 ^ p) = pow2 (e + 1)"
    unfolding u_def by (simp add: pow2_nat[symmetric] pow2_add[symmetric])
  finally show ?thesis unfolding rounded_def e_def u_def .
qed

lemma rounded_lower:
  assumes "0 < x" and "pow2 (binade emin x) \<le> x" and "1 \<le> p"
  shows "pow2 (binade emin x) \<le> rounded p emin x"
proof -
  define e where "e = binade emin x"
  define u where "u = pow2 (e - int p + 1)"
  have u: "0 < u" by (simp add: u_def)
  have "pow2 e / u = pow2 (int (p - 1))"
    unfolding u_def pow2_diff[symmetric] using assms(3) by (simp add: of_nat_diff)
  also have "\<dots> = real_of_int (2 ^ (p - 1))" by (simp add: pow2_nat)
  finally have q: "pow2 e / u = real_of_int (2 ^ (p - 1))" .
  have "pow2 e / u \<le> x / u"
    using assms(2) u by (simp add: e_def divide_right_mono)
  then have "rne (real_of_int (2 ^ (p - 1))) \<le> rne (x / u)"
    unfolding q by (rule rne_mono)
  then have i: "(2::int) ^ (p - 1) \<le> rne (x / u)" by simp
  have "real_of_int (2 ^ (p - 1)) \<le> real_of_int (rne (x / u))"
    using i by (simp only: of_int_le_iff)
  then have "u * real_of_int (2 ^ (p - 1)) \<le> u * real_of_int (rne (x / u))"
    using u by (intro mult_left_mono) simp_all
  moreover have "u * real_of_int (2 ^ (p - 1)) = pow2 e"
    using q u by (simp add: field_simps)
  ultimately have "pow2 e \<le> u * real_of_int (rne (x / u))" by simp
  then show ?thesis unfolding rounded_def e_def u_def .
qed

lemma rounded_nonneg:
  assumes "0 \<le> x"
  shows "0 \<le> rounded p emin x"
proof -
  have "0 \<le> x / pow2 (binade emin x - int p + 1)" using assms by simp
  then have "0 \<le> rne (x / pow2 (binade emin x - int p + 1))" by (rule rne_nonneg)
  then show ?thesis by (simp add: rounded_def)
qed

lemma rounded_mono_pos:
  assumes "0 < a" and "a \<le> b" and "1 \<le> p"
  shows "rounded p emin a \<le> rounded p emin b"
proof (cases "binade emin a = binade emin b")
  case True
  have "a / pow2 (binade emin b - int p + 1) \<le> b / pow2 (binade emin b - int p + 1)"
    using assms(2) by (simp add: divide_right_mono)
  then have "rne (a / pow2 (binade emin b - int p + 1)) \<le> rne (b / pow2 (binade emin b - int p + 1))"
    by (rule rne_mono)
  then show ?thesis
    unfolding rounded_def True by (simp add: mult_left_mono)
next
  case False
  from assms have b: "0 < b" by simp
  from False binade_mono[OF assms(1,2), of emin] have lt: "binade emin a + 1 \<le> binade emin b"
    by simp
  then have "binade emin b \<noteq> emin" using binade_ge[of emin a] by simp
  with binade_lower[OF b, of emin] have "pow2 (binade emin b) \<le> b" by simp
  from rounded_lower[OF b this assms(3)] have "pow2 (binade emin b) \<le> rounded p emin b" .
  moreover have "rounded p emin a \<le> pow2 (binade emin a + 1)"
    using assms(1) by (rule rounded_upper)
  moreover have "pow2 (binade emin a + 1) \<le> pow2 (binade emin b)"
    using lt by (rule pow2_mono)
  ultimately show ?thesis by linarith
qed

lemma rounded_0 [simp]: "rounded p emin 0 = 0"
  by (simp add: rounded_def)

lemma rounded_mono:
  assumes "a \<le> b" and "1 \<le> p"
  shows "rounded p emin a \<le> rounded p emin b"
proof -
  consider "0 < a" | "a \<le> 0" "0 \<le> b" | "b < 0" by linarith
  then show ?thesis
  proof cases
    case 1
    then show ?thesis using assms by (rule rounded_mono_pos)
  next
    case 2
    have "rounded p emin a = - rounded p emin (- a)" by simp
    also have "\<dots> \<le> 0" using 2(1) rounded_nonneg[of "- a" p emin] by simp
    also have "0 \<le> rounded p emin b" using 2(2) by (rule rounded_nonneg)
    finally show ?thesis .
  next
    case 3
    then have "0 < - b" "- b \<le> - a" using assms(1) by simp_all
    from rounded_mono_pos[OF this assms(2), of emin] show ?thesis by simp
  qed
qed

section \<open>Round to nearest is a rounding\<close>

lemma ieee_round_alt:
  "ieee_round p emin emax x =
     (if pow2 (emax + 1) \<le> \<bar>rounded p emin x\<bar> then (if 0 < x then PInf else NInf)
      else Fin (rounded p emin x))"
  by (simp add: ieee_round_def)

lemma rounded_nonpos: "x \<le> 0 \<Longrightarrow> rounded p emin x \<le> 0"
  using rounded_nonneg[of "- x" p emin] by simp

lemma ieee_round_mono:
  assumes "a \<le> b" and "1 \<le> p"
  shows "fle (ieee_round p emin emax a) (ieee_round p emin emax b)"
proof -
  define T where "T = pow2 (emax + 1)"
  have T: "0 < T" by (simp add: T_def)
  have m: "rounded p emin a \<le> rounded p emin b" using assms by (rule rounded_mono)
  have pa: "0 \<le> rounded p emin a" if "0 < a" using that rounded_nonneg[of a p emin] by simp
  have pb: "0 \<le> rounded p emin b" if "0 < b" using that rounded_nonneg[of b p emin] by simp
  have na: "rounded p emin a \<le> 0" if "\<not> 0 < a" using that rounded_nonpos[of a p emin] by simp
  have nb: "rounded p emin b \<le> 0" if "\<not> 0 < b" using that rounded_nonpos[of b p emin] by simp
  show ?thesis
    unfolding ieee_round_alt T_def[symmetric]
    using m T assms(1) pa pb na nb by (auto simp: abs_if split: if_splits)
qed

lemma ieee_round_minus: "ieee_round p emin emax (- x) = fneg (ieee_round p emin emax x)"
proof (cases "x = 0")
  case True
  then show ?thesis by (simp add: ieee_round_def)
next
  case False
  then show ?thesis by (auto simp: ieee_round_def)
qed

lemma rounded_exact:
  assumes "x / pow2 (binade emin x - int p + 1) = real_of_int n"
  shows "rounded p emin x = x"
proof -
  have "rounded p emin x = pow2 (binade emin x - int p + 1) * (x / pow2 (binade emin x - int p + 1))"
    unfolding rounded_def assms rne_of_int ..
  then show ?thesis by simp
qed

lemma pow2_is_int: "0 \<le> k \<Longrightarrow> pow2 k = real_of_int (2 ^ nat k)"
  using pow2_nat[of "nat k"] by simp

lemma div_pow2_int:
  assumes "k \<le> 0"
  shows "real_of_int m / pow2 k = real_of_int (m * 2 ^ nat (- k))"
proof -
  have "pow2 k = 1 / 2 ^ nat (- k)"
    using pow2_neg_nat[of "nat (- k)"] assms by simp
  then show ?thesis by simp
qed

text \<open>A format with \<open>p\<close> bits holds the integers up to \<open>2^p\<close>.\<close>

lemma rounded_int_pos:
  assumes k: "0 < k" "k \<le> 2 ^ p" and p: "1 \<le> p" and emin: "emin \<le> 0"
  shows "rounded p emin (real_of_int k) = real_of_int k"
proof -
  define x where "x = real_of_int k"
  define e where "e = binade emin x"
  have x: "0 < x" "1 \<le> x" using k by (simp_all add: x_def)
  have "pow2 emin \<le> pow2 0" using emin by (rule pow2_mono)
  then have "pow2 emin \<le> x" using x by simp
  have e0: "0 \<le> e"
  proof (rule ccontr)
    assume "\<not> 0 \<le> e"
    then have "e + 1 \<le> 0" by simp
    then have "pow2 (e + 1) \<le> pow2 0" by (rule pow2_mono)
    with binade_upper[OF x(1), of emin] x(2) show False by (simp add: e_def)
  qed
  then have "e \<noteq> emin \<or> pow2 e \<le> x"
    using \<open>pow2 emin \<le> x\<close> by auto
  with binade_lower[OF x(1), of emin] have lo: "pow2 e \<le> x" by (auto simp: e_def)
  have ep: "e \<le> int p"
  proof (rule ccontr)
    assume "\<not> e \<le> int p"
    then have "int p + 1 \<le> e" by simp
    then have "pow2 (int p + 1) \<le> pow2 e" by (rule pow2_mono)
    moreover have "pow2 (int p) < pow2 (int p + 1)" by (rule pow2_less) simp
    moreover have "x \<le> pow2 (int p)" using k(2) by (simp add: x_def pow2_nat flip: of_int_le_iff)
    ultimately show False using lo by linarith
  qed
  show ?thesis
  proof (cases "e - int p + 1 \<le> 0")
    case True
    from div_pow2_int[OF this, of k] show ?thesis
      unfolding x_def[symmetric] e_def by (rule rounded_exact)
  next
    case False
    with ep have e: "e = int p" by simp
    have "real_of_int (2 ^ p) \<le> x" using lo by (simp add: e pow2_nat)
    then have "2 ^ p \<le> k" by (simp add: x_def flip: of_int_le_iff)
    with k(2) have kk: "k = 2 ^ p" by simp
    have "(2::int) ^ p = 2 * 2 ^ (p - 1)" using p by (cases p) simp_all
    then have "x / pow2 (e - int p + 1) = real_of_int (2 ^ (p - 1))"
      by (simp add: e x_def kk pow2_def)
    then show ?thesis
      unfolding x_def[symmetric] e_def by (rule rounded_exact)
  qed
qed

lemma ieee_round_int:
  assumes k: "\<bar>k\<bar> \<le> 2 ^ p" and p: "1 \<le> p" "int p \<le> emax" and emin: "emin \<le> 0"
  shows "ieee_round p emin emax (real_of_int k) = Fin (real_of_int k)"
proof -
  have T: "(2::real) ^ p < pow2 (emax + 1)"
  proof -
    have "pow2 (int p) < pow2 (emax + 1)" using p(2) by (intro pow2_less) simp
    then show ?thesis by (simp add: pow2_nat)
  qed
  have pos: "ieee_round p emin emax (real_of_int j) = Fin (real_of_int j)" if "0 < j" "j \<le> 2 ^ p" for j
  proof -
    have "real_of_int j \<le> real_of_int (2 ^ p)" using that(2) by (simp only: of_int_le_iff)
    then have "real_of_int j \<le> 2 ^ p" by simp
    then have "real_of_int j < pow2 (emax + 1)" using T by linarith
    then have "\<bar>real_of_int j\<bar> < pow2 (emax + 1)" using that(1) by simp
    then show ?thesis
      by (simp add: ieee_round_alt rounded_int_pos[OF that p(1) emin])
  qed
  consider "0 < k" | "k = 0" | "k < 0" by linarith
  then show ?thesis
  proof cases
    case 1
    with k show ?thesis by (intro pos) simp_all
  next
    case 2
    then show ?thesis by (simp add: ieee_round_def)
  next
    case 3
    with k have "0 < - k" "- k \<le> 2 ^ p" by simp_all
    from pos[OF this] have "ieee_round p emin emax (- real_of_int k) = Fin (- real_of_int k)"
      by simp
    then have "fneg (ieee_round p emin emax (real_of_int k)) = Fin (- real_of_int k)"
      by (simp only: ieee_round_minus)
    then show ?thesis by (cases "ieee_round p emin emax (real_of_int k)") simp_all
  qed
qed

text \<open>A rounded value is rounded to itself.\<close>

lemma rounded_idem_pos:
  assumes a: "0 < a" and p: "1 \<le> p"
  shows "rounded p emin (rounded p emin a) = rounded p emin a"
proof -
  define e where "e = binade emin a"
  define u where "u = pow2 (e - int p + 1)"
  define n where "n = rne (a / u)"
  define b where "b = rounded p emin a"
  have b: "b = u * real_of_int n" by (simp add: b_def rounded_def u_def e_def n_def)
  have u: "0 < u" by (simp add: u_def)
  have b0: "0 \<le> b" using a unfolding b_def by (intro rounded_nonneg) simp
  have bu: "b \<le> pow2 (e + 1)" unfolding b_def e_def using a by (rule rounded_upper)
  have q: "b / u = real_of_int n" using u by (simp add: b)
  consider "b = 0" | "0 < b" "b < pow2 (e + 1)" | "b = pow2 (e + 1)" using b0 bu by linarith
  then have "rounded p emin b = b"
  proof cases
    case 1
    then show ?thesis by simp
  next
    case 2
    have "binade emin b = e"
    proof (cases "pow2 e \<le> a")
      case True
      from rounded_lower[OF a _ p, of emin] True have "pow2 e \<le> b" by (simp add: e_def b_def)
      then show ?thesis using 2 by (intro binade_eqI) (simp_all add: e_def binade_ge)
    next
      case False
      with binade_lower[OF a, of emin] have em: "e = emin" by (simp add: e_def)
      show ?thesis
      proof (cases "pow2 emin \<le> b")
        case True
        then show ?thesis using 2 unfolding em by (intro binade_eqI) simp_all
      next
        case False
        then show ?thesis using 2 unfolding em by (intro binade_subnormal) simp_all
      qed
    qed
    with q show ?thesis unfolding u_def by (intro rounded_exact[of _ _ _ n]) simp
  next
    case 3
    have be: "binade emin b = e + 1"
      unfolding 3 using binade_ge[of emin a]
      by (intro binade_eqI) (simp_all add: e_def pow2_less)
    have "b / pow2 (e + 1 - int p + 1) = pow2 (int (p - 1))"
      unfolding 3 pow2_diff[symmetric] using p by (simp add: of_nat_diff)
    also have "\<dots> = real_of_int (2 ^ (p - 1))" by (simp add: pow2_nat)
    finally show ?thesis unfolding be[symmetric] by (rule rounded_exact)
  qed
  then show ?thesis by (simp add: b_def)
qed

lemma rounded_idem:
  assumes p: "1 \<le> p"
  shows "rounded p emin (rounded p emin a) = rounded p emin a"
proof -
  consider "0 < a" | "a = 0" | "a < 0" by linarith
  then show ?thesis
  proof cases
    case 1
    then show ?thesis using p by (rule rounded_idem_pos)
  next
    case 2
    then show ?thesis by simp
  next
    case 3
    then have "0 < - a" by simp
    from rounded_idem_pos[OF this p, of emin] show ?thesis by simp
  qed
qed

lemma rounded_abs_upper:
  assumes "a \<noteq> 0"
  shows "\<bar>rounded p emin a\<bar> \<le> pow2 (binade emin a + 1)"
proof (cases "0 < a")
  case True
  then show ?thesis
    using rounded_upper[OF True, of p emin] rounded_nonneg[of a p emin] by simp
next
  case False
  with assms have a: "0 < - a" by simp
  from rounded_upper[OF a, of p emin] rounded_nonneg[of "- a" p emin] a
  show ?thesis by simp
qed

lemma ieee_round_floor:
  assumes r: "ieee_round p emin emax a = Fin b" and p: "1 \<le> p" "int p \<le> emax" and emin: "emin \<le> 0"
  shows "ieee_round p emin emax (real_of_int \<lfloor>b\<rfloor>) = Fin (real_of_int \<lfloor>b\<rfloor>)"
proof (cases "a = 0")
  case True
  with r have "b = 0" by (simp add: ieee_round_def)
  then show ?thesis by (simp add: ieee_round_def)
next
  case False
  from r have b: "b = rounded p emin a" and fin: "\<bar>b\<bar> < pow2 (emax + 1)"
    by (auto simp: ieee_round_alt split: if_splits)
  define e where "e = binade emin a"
  show ?thesis
  proof (cases "0 \<le> e - int p + 1")
    case True
    define n where "n = rne (a / pow2 (e - int p + 1))"
    have "b = pow2 (e - int p + 1) * real_of_int n"
      by (simp add: b rounded_def e_def n_def)
    also have "pow2 (e - int p + 1) = real_of_int (2 ^ nat (e - int p + 1))"
      using True by (rule pow2_is_int)
    finally have "b = real_of_int (2 ^ nat (e - int p + 1) * n)" by simp
    then have fb: "real_of_int \<lfloor>b\<rfloor> = b" by simp
    have "rounded p emin b = b" unfolding b using p(1) by (rule rounded_idem)
    then show ?thesis unfolding fb using fin by (simp add: ieee_round_alt)
  next
    case False
    then have "e + 1 \<le> int p - 1" by simp
    then have "pow2 (e + 1) \<le> pow2 (int p - 1)" by (rule pow2_mono)
    also have "int p - 1 = int (p - 1)" using p(1) by (simp add: of_nat_diff)
    finally have "pow2 (e + 1) \<le> real_of_int (2 ^ (p - 1))" by (simp add: pow2_nat)
    with rounded_abs_upper[OF \<open>a \<noteq> 0\<close>, of p emin]
    have ab: "\<bar>b\<bar> \<le> real_of_int (2 ^ (p - 1))" unfolding b e_def by linarith
    then have lo: "real_of_int (- (2 ^ (p - 1))) \<le> b" and hi: "b \<le> real_of_int (2 ^ (p - 1))"
      by simp_all
    from lo have "- (2 ^ (p - 1)) \<le> \<lfloor>b\<rfloor>" by (simp only: le_floor_iff)
    moreover from hi have "b < real_of_int (2 ^ (p - 1)) + 1" by linarith
    then have "\<lfloor>b\<rfloor> \<le> 2 ^ (p - 1)" by (simp only: floor_le_iff)
    ultimately have "\<bar>\<lfloor>b\<rfloor>\<bar> \<le> 2 ^ (p - 1)" by simp
    also have "(2::int) ^ (p - 1) \<le> 2 ^ p" by (intro power_increasing) simp_all
    finally show ?thesis using p emin by (intro ieee_round_int)
  qed
qed

lemma rounding_ieee_round:
  assumes "24 \<le> p" and "int p \<le> emax" and "emin \<le> 0"
  shows "rounding (ieee_round p emin emax)"
  unfolding rounding_def
proof (intro conjI allI impI)
  fix a b :: real
  assume "a \<le> b"
  then show "fle (ieee_round p emin emax a) (ieee_round p emin emax b)"
    using assms(1) by (intro ieee_round_mono) simp_all
next
  fix k :: int
  assume "\<bar>k\<bar> \<le> 16777216"
  also have "(16777216::int) = 2 ^ 24" by simp
  also have "(2::int) ^ 24 \<le> 2 ^ p" using assms(1) by (intro power_increasing) simp_all
  finally show "ieee_round p emin emax (real_of_int k) = Fin (real_of_int k)"
    using assms by (intro ieee_round_int) simp_all
next
  fix a b
  assume "ieee_round p emin emax a = Fin b"
  then show "ieee_round p emin emax (real_of_int \<lfloor>b\<rfloor>) = Fin (real_of_int \<lfloor>b\<rfloor>)"
    using assms by (intro ieee_round_floor[of p emin emax a]) simp_all
qed

lemma rounding_binary32: "rounding binary32"
  unfolding binary32_def by (rule rounding_ieee_round) simp_all

lemma rounding_binary64: "rounding binary64"
  unfolding binary64_def by (rule rounding_ieee_round) simp_all

lemma rounding_ieee: "rounding (rF ieee)" "rounding (rD ieee)"
  by (simp_all add: ieee_def rounding_binary32 rounding_binary64)

section \<open>The example\<close>

lemma hog1_fields: "binsize hog1 = 1" "norient hog1 = 18" "flen hog1 = 32" "nscales hog1 = 1"
  "type_T hog1 = CV_32F"
  by (simp_all add: hog1_def)



subsection \<open>The example in any arithmetic\<close>

lemma rounding_small:
  assumes "rounding r"
  shows "r 0 = Fin 0" "r 1 = Fin 1" "r 2 = Fin 2" "r 3 = Fin 3" "r 4 = Fin 4"
  using rounding_int[OF assms, of 0] rounding_int[OF assms, of 1] rounding_int[OF assms, of 2]
    rounding_int[OF assms, of 3] rounding_int[OF assms, of 4]
  by simp_all

lemma rounding_abs:
  assumes r: "rounding r" and a: "\<bar>a\<bar> \<le> real_of_int k" and k: "\<bar>k\<bar> \<le> 16777216"
  shows "\<exists>d. r a = Fin d \<and> \<bar>d\<bar> \<le> real_of_int k"
proof -
  from a have lo: "real_of_int (- k) \<le> a" and hi: "a \<le> real_of_int k" by simp_all
  from k have k': "\<bar>- k\<bar> \<le> 16777216" by simp
  from rounding_mono[OF r lo] rounding_int[OF r k'] have "fle (Fin (real_of_int (- k))) (r a)" by simp
  moreover from rounding_mono[OF r hi] rounding_int[OF r k] have "fle (r a) (Fin (real_of_int k))" by simp
  ultimately show ?thesis by (cases "r a") simp_all
qed

lemma hog1_rT: "rT ar hog1 = rF ar"
  by (simp add: rT_def hog1_def)

lemma blocks_T_edge3_any:
  assumes "rounding (rF ar)"
  shows "blocks_T ar hog1 3 = Inr 3"
  by (simp add: blocks_T_def hog1_fields rounding_small[OF assms] c_round_def)


text \<open>
  The orientation of the gradient (2, 0): the first unit vector gives the dot product 2,
  and no later one, whose coordinates are at most 1, gives more.
\<close>

lemma unit_vectors_bounded: "ob < 9 \<Longrightarrow> \<bar>uu ! ob\<bar> \<le> 1 \<and> \<bar>vv ! ob\<bar> \<le> 1"
proof -
  assume "ob < 9"
  then consider "ob = 0" | "ob = 1" | "ob = 2" | "ob = 3" | "ob = 4" | "ob = 5" | "ob = 6"
    | "ob = 7" | "ob = 8" by linarith
  then show ?thesis by cases (simp_all add: uu_def vv_def)
qed




lemma fold_keep: "\<forall>x\<in>set xs. f x s = s \<Longrightarrow> fold f xs s = s"
  by (induction xs) simp_all


lemma cell_coord_T_edge3_any:
  assumes f: "rounding (rF ar)" and d: "rounding (rD ar)" and x: "exact_at_fractions ar"
  shows "cell_coord_T ar hog1 (Suc 0) = Fin 1"
proof -
  from x have h: "rD ar (1 / 2) = Fin (1 / 2)" "rD ar (3 / 2) = Fin (3 / 2)"
    by (simp_all add: exact_at_fractions_def)
  show ?thesis
    by (simp add: cell_coord_T_def hog1_rT hog1_fields fsub_def h rounding_small[OF f]
        rounding_small[OF d])
qed

lemma weights_T_edge3_any:
  assumes f: "rounding (rF ar)" and d: "rounding (rD ar)"
  shows "weight0_T ar hog1 1 = Fin 0" "weight1_T ar hog1 1 = Fin 1"
  by (simp_all add: weight0_T_def weight1_T_def hog1_rT fsub_def rounding_small[OF f]
      rounding_small[OF d])











section \<open>Values of round to nearest\<close>

lemma pow2_numeral: "pow2 (numeral k) = 2 ^ numeral k"
  using pow2_nat[of "numeral k"] by simp

lemma pow2_neg_numeral: "pow2 (- numeral k) = 1 / 2 ^ numeral k"
  using pow2_neg_nat[of "numeral k"] by simp

lemma pow2_1: "pow2 1 = 2"
  using pow2_nat[of 1] by simp

lemma pow2_neg_1: "pow2 (- 1) = 1 / 2"
  using pow2_neg_nat[of 1] by simp

lemmas pow2_eval = pow2_numeral pow2_neg_numeral pow2_1 pow2_neg_1 pow2_0

text \<open>
  The rounding of a positive number, from the exponent \<open>e\<close> of its binade and the nearest
  multiple \<open>n\<close> of the unit.
\<close>

lemma ieee_round_eval:
  assumes "0 < x" and "pow2 e \<le> x" and "x < pow2 (e + 1)" and "emin \<le> e"
    and "rne (x / pow2 (e - int p + 1)) = n"
    and "pow2 (e - int p + 1) * real_of_int n = y"
    and "0 \<le> y" and "y < pow2 (emax + 1)"
  shows "ieee_round p emin emax x = Fin y"
proof -
  have b: "binade emin x = e" using assms(1-4) by (rule binade_eqI)
  have "rounded p emin x = y" by (simp add: rounded_def b assms(5,6))
  then show ?thesis using assms(1,7,8) by (simp add: ieee_round_def)
qed

lemma binary64_half: "binary64 (1 / 2) = Fin (1 / 2)"
  unfolding binary64_def
  by (rule ieee_round_eval[where e = "- 1" and n = "2 ^ 52"]; simp add: pow2_eval rne_def)

lemma binary64_three_halves: "binary64 (3 / 2) = Fin (3 / 2)"
  unfolding binary64_def
  by (rule ieee_round_eval[where e = 0 and n = "3 * 2 ^ 51"]; simp add: pow2_eval rne_def)

lemma binary64_quarter: "binary64 (1 / 4) = Fin (1 / 4)"
  unfolding binary64_def
  by (rule ieee_round_eval[where e = "- 2" and n = "2 ^ 52"]; simp add: pow2_eval rne_def)

lemma binary32_quarter: "binary32 (1 / 4) = Fin (1 / 4)"
  unfolding binary32_def
  by (rule ieee_round_eval[where e = "- 2" and n = "2 ^ 23"]; simp add: pow2_eval rne_def)

lemma binary32_half: "binary32 (1 / 2) = Fin (1 / 2)"
  unfolding binary32_def
  by (rule ieee_round_eval[where e = "- 1" and n = "2 ^ 23"]; simp add: pow2_eval rne_def)

lemma exact_at_fractions_ieee: "exact_at_fractions ieee"
  by (simp add: exact_at_fractions_def ieee_def binary64_half binary64_three_halves
      binary64_quarter binary32_quarter binary32_half)
















section \<open>The example that overflows\<close>

text \<open>
  The image \<open>glare3\<close> in any arithmetic in which \<open>big\<close> is a \<open>float\<close> and its
  square overflows: the gradient magnitude of the visited pixel is infinite, the energy
  of its block is infinite, the first scalar of the output cell is 0, and the product of
  the infinite histogram entry with it is a NaN, which \<open>std::min\<close> returns.
\<close>

lemma big_pos: "0 < big"
  by (simp add: big_def)

lemma glare3_fields: "frows glare3 = 3" "fcols glare3 = 3" "fchannels glare3 = 1"
  "fdata glare3 = [Fin 0, Fin 0, Fin 0, Fin 0, Fin 0, Fin big, Fin 0, Fin 0, Fin 0]"
  by (simp_all add: glare3_def)

lemma rounding_within:
  assumes r: "rounding r" and p: "r X = Fin X" and n: "r (- X) = Fin (- X)" and a: "\<bar>a\<bar> \<le> X"
  shows "\<exists>d. r a = Fin d \<and> \<bar>d\<bar> \<le> X"
proof -
  from a have lo: "- X \<le> a" and hi: "a \<le> X" by simp_all
  from rounding_mono[OF r lo] n have "fle (Fin (- X)) (r a)" by simp
  moreover from rounding_mono[OF r hi] p have "fle (r a) (Fin X)" by simp
  ultimately show ?thesis by (cases "r a") simp_all
qed

lemma pixel_grad_T_glare3_any:
  assumes f: "rounding (rF ar)" and b: "big_overflows ar"
  shows "pixel_grad_T ar hog1 CV_32F glare3 (Suc 0) (Suc 0) = Inr (Fin big, Fin 0, PInf)"
proof -
  from b have v: "rF ar big = Fin big" "rF ar (big * big) = PInf"
    by (simp_all add: big_overflows_def)
  show ?thesis
    by (simp add: pixel_grad_T_def channel_grad_T_def sample_offset_T_def grad_offsets_T_def
        in_buffer_T_def glare3_fields hog1_rT rI_def fsub_def Let_def rounding_small[OF f] v)
qed

lemma dot_bounded_big:
  assumes f: "rounding (rF ar)" and d: "rounding (rD ar)" and ob: "ob < 9" and b: "big_overflows ar"
  shows "\<exists>m. fadd (rF ar) (fmul (rF ar) (cvt (rF ar) (rD ar (uu ! ob))) (Fin big))
                          (fmul (rF ar) (cvt (rF ar) (rD ar (vv ! ob))) (Fin 0)) = Fin m
             \<and> \<bar>m\<bar> \<le> big"
proof -
  from b have p: "rF ar big = Fin big" and n: "rF ar (- big) = Fin (- big)"
    by (simp_all add: big_overflows_def)
  from unit_vectors_bounded[OF ob] have u: "\<bar>uu ! ob\<bar> \<le> real_of_int 1" and v: "\<bar>vv ! ob\<bar> \<le> real_of_int 1"
    by simp_all
  from rounding_abs[OF d u] obtain a where a: "rD ar (uu ! ob) = Fin a" "\<bar>a\<bar> \<le> 1" by auto
  from rounding_abs[OF d v] obtain c where c: "rD ar (vv ! ob) = Fin c" "\<bar>c\<bar> \<le> 1" by auto
  from a(2) have "\<bar>a\<bar> \<le> real_of_int 1" by simp
  from rounding_abs[OF f this] obtain a' where a': "rF ar a = Fin a'" "\<bar>a'\<bar> \<le> 1" by auto
  from c(2) have "\<bar>c\<bar> \<le> real_of_int 1" by simp
  from rounding_abs[OF f this] obtain c' where c': "rF ar c = Fin c'" "\<bar>c'\<bar> \<le> 1" by auto
  have "\<bar>a' * big\<bar> = \<bar>a'\<bar> * big" using big_pos by (simp add: abs_mult)
  also have "\<dots> \<le> 1 * big" using a'(2) big_pos by (intro mult_right_mono) simp_all
  finally have "\<bar>a' * big\<bar> \<le> big" by simp
  from rounding_within[OF f p n this] obtain m where m: "rF ar (a' * big) = Fin m" "\<bar>m\<bar> \<le> big" by auto
  have "fadd (rF ar) (fmul (rF ar) (cvt (rF ar) (rD ar (uu ! ob))) (Fin big))
                     (fmul (rF ar) (cvt (rF ar) (rD ar (vv ! ob))) (Fin 0)) = rF ar m"
    by (simp add: a(1) c(1) a'(1) c'(1) m(1) rounding_small[OF f])
  moreover from rounding_within[OF f p n m(2)] obtain m' where "rF ar m = Fin m'" "\<bar>m'\<bar> \<le> big" by auto
  ultimately show ?thesis by auto
qed

lemma snap_step_T_keep_big:
  assumes f: "rounding (rF ar)" and d: "rounding (rD ar)" and ob: "ob < 9" and b: "big_overflows ar"
  shows "snap_step_T ar hog1 (Fin big) (Fin 0) ob (Fin big, k) = (Fin big, k)"
proof -
  from dot_bounded_big[OF f d ob b] obtain m where
    m: "fadd (rF ar) (fmul (rF ar) (cvt (rF ar) (rD ar (uu ! ob))) (Fin big))
                     (fmul (rF ar) (cvt (rF ar) (rD ar (vv ! ob))) (Fin 0)) = Fin m"
    and c: "\<bar>m\<bar> \<le> big" by blast
  from c have "\<not> big < m" "\<not> big < - m" by linarith+
  then show ?thesis
    by (simp add: snap_step_T_def hog1_rT Let_def m)
qed

lemma snap_step_T_first_big:
  assumes f: "rounding (rF ar)" and d: "rounding (rD ar)" and b: "big_overflows ar"
  shows "snap_step_T ar hog1 (Fin big) (Fin 0) 0 (Fin 0, 0) = (Fin big, 0)"
proof -
  from b have p: "rF ar big = Fin big" by (simp add: big_overflows_def)
  show ?thesis
    by (simp add: snap_step_T_def hog1_rT Let_def uu_def vv_def rounding_small[OF f]
        rounding_small[OF d] p big_pos)
qed

lemma snap_T_glare3_any:
  assumes f: "rounding (rF ar)" and d: "rounding (rD ar)" and b: "big_overflows ar"
  shows "snap_T ar hog1 (Fin big) (Fin 0) = 0"
proof -
  have u: "[0..<9] = 0 # [1..<9]" by (simp add: upt_rec)
  have "fold (snap_step_T ar hog1 (Fin big) (Fin 0)) [1..<9] (Fin big, 0) = (Fin big, 0)"
    by (rule fold_keep) (simp add: snap_step_T_keep_big[OF f d _ b])
  then show ?thesis
    by (simp add: snap_T_def hog1_fields u snap_step_T_first_big[OF f d b])
qed

lemma hist_stores_T_glare3_any:
  assumes f: "rounding (rF ar)" and d: "rounding (rD ar)" and x: "exact_at_fractions ar"
    and b: "big_overflows ar"
  shows "hist_stores_T ar hog1 3 3 (Suc 0) (Suc 0) (Fin big, Fin 0, PInf) =
     Inr [(True, 72, PInf), (True, 90, NaN), (True, 126, NaN), (True, 144, NaN)]"
  by (simp add: hist_stores_T_def cell_coord_T_edge3_any[OF f d x] weights_T_edge3_any[OF f d]
      snap_T_glare3_any[OF f d b] hog1_rT hog1_fields Let_def rounding_small[OF f])

lemma hist_pass_T_glare3_any:
  assumes f: "rounding (rF ar)" and d: "rounding (rD ar)" and x: "exact_at_fractions ar"
    and b: "big_overflows ar"
  shows "hist_pass_T ar hog1 CV_32F glare3 3 3 = Inr glare3_hist"
  unfolding glare3_hist_def
  apply (simp add: hist_pass_T_def hog1_fields upt_rec pixel_grad_T_glare3_any[OF f b] hist_pixel_T_def
      hist_stores_T_glare3_any[OF f d x b] guarded_store_T_def)
  done

lemma features_T_glare3_any:
  assumes f: "rounding (rF ar)" and d: "rounding (rD ar)" and x: "exact_at_fractions ar"
    and b: "big_overflows ar"
  shows "features_T ar hog1 CV_32F glare3 = Inr (glare3_map ar)"
  by (simp add: features_T_def glare3_fields blocks_T_edge3_any[OF f] hist_pass_T_glare3_any[OF f d x b]
      outsize_of_3 hog1_fields glare3_map_def)

lemma norm_pass_T_glare3_any:
  assumes f: "rounding (rF ar)" and d: "rounding (rD ar)"
  shows "norm_pass_T ar hog1 3 3 glare3_hist =
     [Fin 0, Fin 0, Fin 0, Fin 0, PInf, NaN, Fin 0, NaN, NaN]"
  apply (simp add: norm_pass_T_def norm_step_T_def hog1_rT hog1_fields glare3_hist_def upt_rec
      rounding_small[OF f] rounding_small[OF d] Let_def)
  apply (simp add: replicate_numeral_Cons)
  done

lemma glare3_hist_values: "glare3_hist ! 72 = PInf" "length glare3_hist = 162"
  by (simp_all add: glare3_hist_def)

lemma norm_scalar_T_glare3_any:
  assumes f: "rounding (rF ar)" and d: "rounding (rD ar)"
  shows "norm_scalar_T ar hog1 [Fin 0, Fin 0, Fin 0, Fin 0, PInf, NaN, Fin 0, NaN, NaN] (Suc 0) (Suc (Suc 0)) = Fin 0"
proof -
  have "0 \<le> eps" by (simp add: eps_def)
  from rounding_nonneg[OF d this] have "fadd (rD ar) PInf (rD ar eps) = PInf"
    by (cases "rD ar eps") simp_all
  then show ?thesis
    by (simp add: norm_scalar_T_def hog1_rT Let_def rounding_small[OF f])
qed

lemma flt_NaN_right: "flt x NaN = False"
  by (cases x) simp_all

lemma glare3_entry_is_NaN:
  assumes f: "rounding (rF ar)" and d: "rounding (rD ar)"
  shows "fcell (glare3_map ar) 0 0 = NaN"
proof -
  obtain n1 n2 n3 n4 where
    ns: "norm_scalars_T ar hog1 (norm_pass_T ar hog1 3 3 glare3_hist) 1 0 0 = (n1, n2, n3, n4)"
    by (cases "norm_scalars_T ar hog1 (norm_pass_T ar hog1 3 3 glare3_hist) 1 0 0") blast
  then have n1: "n1 = Fin 0"
    using norm_scalar_T_glare3_any[OF f d]
    by (simp add: norm_scalars_T_def norm_pass_T_glare3_any[OF f d])
  have pass: "fdata (glare3_map ar) =
      feat_cell_T ar hog1 glare3_hist (norm_pass_T ar hog1 3 3 glare3_hist) 3 1 0 0
        (replicate 32 (Fin 0))"
    by (simp add: glare3_map_def feat_pass_T_def hog1_fields)
  have k: "(0::nat) < norient hog1" by (simp add: hog1_fields)
  have i: "(0 * 1 + 0) * flen hog1 + 0 < length (replicate 32 (Fin 0))" by simp
  have src: "(72::nat) = ((0 + 1) * 3 + (0 + 1)) * norient hog1" by (simp add: hog1_fields)
  have h1: "fmin NaN c = NaN" for c
    by (simp add: fmin_def flt_NaN_right)
  from feat_cell_T_sensitive_nth[OF k i ns src, of glare3_hist]
  have "feat_cell_T ar hog1 glare3_hist (norm_pass_T ar hog1 3 3 glare3_hist) 3 1 0 0
          (replicate 32 (Fin 0)) ! 0 =
      half_sum_T ar hog1 NaN
        (fmin (fmul (rF ar) PInf n2) (trunc_T ar hog1))
        (fmin (fmul (rF ar) PInf n3) (trunc_T ar hog1))
        (fmin (fmul (rF ar) PInf n4) (trunc_T ar hog1))"
    by (simp add: glare3_hist_values hog1_rT n1 h1)
  also have "\<dots> = NaN"
    by (rule half_sum_NaN) simp
  finally have "fdata (glare3_map ar) ! 0 = NaN"
    unfolding pass .
  then show ?thesis
    by (simp add: fcell_def)
qed

lemma ieee_round_overflow:
  assumes x: "pow2 (emax + 1) \<le> x" and p: "1 \<le> p" and e: "emin \<le> emax + 1"
  shows "ieee_round p emin emax x = PInf"
proof -
  have pos: "0 < x" using pow2_pos[of "emax + 1"] x by linarith
  have b: "binade emin (pow2 (emax + 1)) = emax + 1"
    by (rule binade_eqI) (simp_all add: pow2_pos pow2_less e)
  have "pow2 (emax + 1) / pow2 (binade emin (pow2 (emax + 1)) - int p + 1) = pow2 (int p - 1)"
    by (simp add: b pow2_diff[symmetric])
  also have "\<dots> = real_of_int (2 ^ nat (int p - 1))"
    using p by (intro pow2_is_int) simp
  finally have "rounded p emin (pow2 (emax + 1)) = pow2 (emax + 1)"
    by (rule rounded_exact)
  with rounded_mono[OF x p, of emin] have "pow2 (emax + 1) \<le> rounded p emin x" by simp
  then have "pow2 (emax + 1) \<le> \<bar>rounded p emin x\<bar>" by simp
  with pos show ?thesis by (simp add: ieee_round_alt)
qed

lemma binary32_big: "binary32 big = Fin big"
  unfolding binary32_def big_def
  by (rule ieee_round_eval[where e = 66 and n = 11368684]; simp add: pow2_eval rne_def)

lemma binary32_minus_big: "binary32 (- big) = Fin (- big)"
  using ieee_round_minus[of 24 "- 126" 127 big] binary32_big by (simp add: binary32_def)

lemma binary32_big_squared: "binary32 (big * big) = PInf"
  unfolding binary32_def
  by (rule ieee_round_overflow) (simp_all add: big_def pow2_eval)

lemma big_overflows_ieee: "big_overflows ieee"
  by (simp add: big_overflows_def ieee_def binary32_big binary32_minus_big binary32_big_squared)

lemma features_T_glare3_ieee: "features_T ieee hog1 CV_32F glare3 = Inr (glare3_map ieee)"
  using rounding_ieee exact_at_fractions_ieee big_overflows_ieee by (rule features_T_glare3_any)

lemma glare3_entry_ieee: "fcell (glare3_map ieee) 0 0 = NaN"
  using rounding_ieee by (rule glare3_entry_is_NaN)

section \<open>The claim about the feature values\<close>




end
